theory Spec2Isabelle
  imports Main "HOL-Library.Word" "HOL-Library.Sublist"
begin

section \<open>The rule engine of wb-rules (src/wbrules/rule.go)\<close>

text \<open>
  The engine is a Go struct mutated in place by its methods; here every method takes the
  engine and returns the new one. Rules are heap objects reached through pointers held
  in several indexes at once (\<open>ruleMap\<close>, \<open>cellToRuleMap\<close>, \<open>rulesWithoutCells\<close>), so
  the engine carries an explicit store \<open>heap\<close> from rule addresses to rule records.
  A Go runtime panic is the \<open>Inl\<close> branch of a sum.
\<close>

subsection \<open>Values crossing the script bridge\<close>

type_synonym esCallback = "64 word"

text \<open>The identity of a function object of the script.\<close>
type_synonym jsfun = nat

text \<open>
  Script values as the bridge sees them on the value stack. Script numbers are doubles;
  the engine only converts them to timer ids and durations, and they are integers here.
\<close>
datatype JSVal =
    JSUndefined
  | JSNull
  | JSBool bool
  | JSNum int
  | JSStr string
  | JSFun jsfun
  | JSArr "JSVal list"
  | JSObj "(string \<times> JSVal) list"

fun ToBoolean :: "JSVal \<Rightarrow> bool" where
  "ToBoolean JSUndefined = False"
| "ToBoolean JSNull = False"
| "ToBoolean (JSBool b) = b"
| "ToBoolean (JSNum n) = (n \<noteq> 0)"
| "ToBoolean (JSStr s) = (s \<noteq> [])"
| "ToBoolean (JSFun f) = True"
| "ToBoolean (JSArr vs) = True"
| "ToBoolean (JSObj ps) = True"

fun IsString :: "JSVal \<Rightarrow> bool" where
  "IsString (JSStr s) = True"
| "IsString v = False"

fun IsNumber :: "JSVal \<Rightarrow> bool" where
  "IsNumber (JSNum n) = True"
| "IsNumber v = False"

fun IsFunction :: "JSVal \<Rightarrow> bool" where
  "IsFunction (JSFun f) = True"
| "IsFunction v = False"

text \<open>For the script host, functions and arrays are objects too.\<close>
fun IsObject :: "JSVal \<Rightarrow> bool" where
  "IsObject (JSObj ps) = True"
| "IsObject (JSArr vs) = True"
| "IsObject (JSFun f) = True"
| "IsObject v = False"

text \<open>
  Property lookup by name on a script value; only the named properties of plain
  objects matter to the engine (\<open>then\<close>, \<open>when\<close>, \<open>asSoonAs\<close>, \<open>onCellChange\<close>).
\<close>
fun GetPropString :: "JSVal \<Rightarrow> string \<Rightarrow> JSVal" where
  "GetPropString (JSObj ps) k = (case map_of ps k of None \<Rightarrow> JSUndefined | Some v \<Rightarrow> v)"
| "GetPropString v k = JSUndefined"

fun HasPropString :: "JSVal \<Rightarrow> string \<Rightarrow> bool" where
  "HasPropString (JSObj ps) k = (map_of ps k \<noteq> None)"
| "HasPropString v k = False"

subsection \<open>Cells (the cell model is an external collaborator)\<close>

text \<open>
  Modelled from the spec: the cell model is not among the sources. The identity of a
  cell is its device name and its own name, so \<open>getCell\<close> returns the same \<open>*Cell\<close> for
  the same pair; its value is a boolean, a number or a string; it is complete once it
  has received a value from the bus.
\<close>
type_synonym Cell = "string \<times> string"

definition cellDevName :: "Cell \<Rightarrow> string" where
  "cellDevName c = fst c"

definition cellName :: "Cell \<Rightarrow> string" where
  "cellName c = snd c"

record CellSpec =
  DevName :: string
  CellName :: string

text \<open>What \<open>Cell.Value()\<close> returns.\<close>
datatype CellValue = BoolValue bool | NumValue int | StrValue string

text \<open>
  The cell model is read through \<open>IsComplete\<close> and \<open>Value\<close>; it is a parameter of every
  operation that consults it.
\<close>
record CellModel =
  IsComplete :: "Cell \<Rightarrow> bool"
  Value :: "Cell \<Rightarrow> CellValue"

definition getCell :: "string \<Rightarrow> string \<Rightarrow> Cell" where
  "getCell devName cName = (devName, cName)"

subsection \<open>Constants and records of rule.go\<close>

definition NO_CALLBACK :: esCallback where
  "NO_CALLBACK = 0"

text \<open>
  The four rule types are declared with \<open>iota\<close> in a constant block whose first six
  entries are other constants, so they are 6, 7, 8 and 9; the zero value of a
  \<open>RuleType\<close> field is none of them.
\<close>
type_synonym RuleType = int

definition RULE_TYPE_NONE :: RuleType where
  "RULE_TYPE_NONE = 6"

definition RULE_TYPE_LEVEL_TRIGGERED :: RuleType where
  "RULE_TYPE_LEVEL_TRIGGERED = 7"

definition RULE_TYPE_EDGE_TRIGGERED :: RuleType where
  "RULE_TYPE_EDGE_TRIGGERED = 8"

definition RULE_TYPE_ON_CELL_CHANGE :: RuleType where
  "RULE_TYPE_ON_CELL_CHANGE = 9"

text \<open>
  A timer entry. The platform timer of an entry is determined by the duration and the
  periodic flag it was armed with; the quit channel is not modelled.
\<close>
record TimerEntry =
  periodic :: bool
  duration :: int

text \<open>\<open>oldCellValue\<close> is an \<open>interface{}\<close>: \<open>None\<close> is Go's \<open>nil\<close>.\<close>
record Rule =
  name :: string
  cond :: esCallback
  then' :: esCallback
  onCellChange :: "Cell list"
  ruleType :: RuleType
  firstRun :: bool
  prevCondValue :: bool
  oldCellValue :: "CellValue option"
  shouldCheck :: bool

type_synonym ruleptr = nat

text \<open>A key of a callback list: an \<open>int\<close> (timers) or an \<open>esCallback\<close>.\<close>
datatype key = IntKey int | CbKey esCallback

text \<open>The argument map handed to the body of an on-change rule.\<close>
record CallArgs =
  device :: string
  cell :: string
  newValue :: CellValue
  oldValue :: "CellValue option"

text \<open>One protected call (\<open>PcallProp\<close>) made by \<open>invokeCallback\<close>.\<close>
datatype Invocation = Invocation string key "CallArgs option"

datatype panic = IndexOutOfRange | NilPointer | Panic string

text \<open>
  The engine. \<open>stash\<close> and \<open>calls\<close> belong to the script context \<open>ctx\<close>: the callback
  lists of the global stash, and the protected calls made so far. \<open>errorLog\<close> collects
  what goes to \<open>wbgo.Error\<close> and to \<open>logFunc\<close> (format strings only; debug output is left
  out). \<open>notedCells\<close> and \<open>rulesWithoutCells\<close> are Go maps used as sets; they are lists
  without duplicates here, and \<open>None\<close> is the \<open>nil\<close> map.
\<close>
record RuleEngine =
  stash :: "string \<Rightarrow> key \<rightharpoonup> JSVal"
  calls :: "Invocation list"
  errorLog :: "string list"
  timers :: "TimerEntry option list"
  callbackIndex :: esCallback
  ruleMap :: "string \<rightharpoonup> ruleptr"
  ruleList :: "string list"
  notedCells :: "Cell list option"
  cellToRuleMap :: "Cell \<rightharpoonup> ruleptr list"
  rulesWithoutCells :: "ruleptr list"
  heap :: "ruleptr \<Rightarrow> Rule"
  nextRule :: ruleptr

text \<open>The zero value of \<open>Rule\<close>, which unallocated addresses hold.\<close>
definition zeroRule :: Rule where
  "zeroRule = \<lparr> name = [], cond = 0, then' = 0, onCellChange = [], ruleType = 0,
      firstRun = False, prevCondValue = False, oldCellValue = None, shouldCheck = False \<rparr>"

definition NewRuleEngine :: RuleEngine where
  "NewRuleEngine = \<lparr> stash = (\<lambda>propName. Map.empty), calls = [], errorLog = [],
      timers = [], callbackIndex = 1, ruleMap = Map.empty, ruleList = [],
      notedCells = None, cellToRuleMap = Map.empty, rulesWithoutCells = [],
      heap = (\<lambda>p. zeroRule), nextRule = 0 \<rparr>"

definition logError :: "string \<Rightarrow> RuleEngine \<Rightarrow> RuleEngine" where
  "logError msg e = e\<lparr> errorLog := errorLog e @ [msg] \<rparr>"

subsection \<open>Script callbacks\<close>

text \<open>
  What running a script function does, as far as the engine can see: it reads cells
  through the bridge's accessors (each read calls \<open>trackCell\<close>) and then returns a value
  or throws. A script can also call back into the engine (\<open>runRules\<close>, \<open>defineRule\<close>, the
  timer functions); such calls are not modelled, so what is proved below of an
  operation that runs a script is about scripts that do not call back, and the
  statements on firing are about single calls of \<open>Check\<close>.
\<close>
datatype JsResult = Returned JSVal | Threw

datatype JsRun = JsRun "Cell list" JsResult

type_synonym ScriptHost = "jsfun \<Rightarrow> JsRun"

definition trackCell :: "Cell \<Rightarrow> RuleEngine \<Rightarrow> RuleEngine" where
  "trackCell c e =
     (case notedCells e of
        None \<Rightarrow> e
      | Some cs \<Rightarrow> e\<lparr> notedCells := Some (List.insert c cs) \<rparr>)"

definition invokeCallback ::
  "ScriptHost \<Rightarrow> string \<Rightarrow> key \<Rightarrow> CallArgs option \<Rightarrow> RuleEngine \<Rightarrow> bool \<times> RuleEngine" where
  "invokeCallback host propName k args e =
     (let e1 = e\<lparr> calls := calls e @ [Invocation propName k args] \<rparr> in
      case stash e1 propName k of
        Some (JSFun f) \<Rightarrow>
          (case host f of
             JsRun reads res \<Rightarrow>
               (let e2 = fold trackCell reads e1 in
                case res of
                  Threw \<Rightarrow> (False, logError ''failed to invoke callback %s[%v]: %s'' e2)
                | Returned v \<Rightarrow> (ToBoolean v, e2)))
      | _ \<Rightarrow> (False, logError ''failed to invoke callback %s[%v]: %s'' e1))"

definition storeCallback ::
  "string \<Rightarrow> JSVal \<Rightarrow> key option \<Rightarrow> RuleEngine \<Rightarrow> esCallback \<times> RuleEngine" where
  "storeCallback propName callback k e =
     (case k of
        None \<Rightarrow>
          (let r = callbackIndex e;
               e1 = e\<lparr> callbackIndex := callbackIndex e + 1 \<rparr>
           in (r, e1\<lparr> stash := (stash e1)(propName := (stash e1 propName)(CbKey r \<mapsto> callback)) \<rparr>))
      | Some k' \<Rightarrow>
          (0, e\<lparr> stash := (stash e)(propName := (stash e propName)(k' \<mapsto> callback)) \<rparr>))"

definition removeCallback :: "string \<Rightarrow> key \<Rightarrow> RuleEngine \<Rightarrow> RuleEngine" where
  "removeCallback propName k e =
     e\<lparr> stash := (stash e)(propName := (stash e propName)(k := None)) \<rparr>"

subsection \<open>Dependency tracking\<close>

definition startTrackingCells :: "RuleEngine \<Rightarrow> RuleEngine" where
  "startTrackingCells e = e\<lparr> notedCells := Some [] \<rparr>"

definition storeRuleCell :: "ruleptr \<Rightarrow> Cell \<Rightarrow> RuleEngine \<Rightarrow> RuleEngine" where
  "storeRuleCell rule c e =
     (let list = (case cellToRuleMap e c of None \<Rightarrow> [] | Some l \<Rightarrow> l)
      in e\<lparr> cellToRuleMap := (cellToRuleMap e)(c \<mapsto> list @ [rule]) \<rparr>)"

text \<open>
  Go ranges over the noted cells in an unspecified order; each cell is noted once, so
  every order appends the rule once to the list of each noted cell.
\<close>
definition storeRuleTrackedCells :: "ruleptr \<Rightarrow> RuleEngine \<Rightarrow> RuleEngine" where
  "storeRuleTrackedCells rule e =
     (let noted = (case notedCells e of None \<Rightarrow> [] | Some cs \<Rightarrow> cs);
          e1 = (if length noted > 0
                then fold (storeRuleCell rule) noted e
                else e\<lparr> rulesWithoutCells := List.insert rule (rulesWithoutCells e) \<rparr>)
      in e1\<lparr> notedCells := None \<rparr>)"

subsection \<open>Rules\<close>

definition setRule :: "ruleptr \<Rightarrow> Rule \<Rightarrow> RuleEngine \<Rightarrow> RuleEngine" where
  "setRule p r e = e\<lparr> heap := (heap e)(p := r) \<rparr>"

definition invokeCond :: "ScriptHost \<Rightarrow> ruleptr \<Rightarrow> RuleEngine \<Rightarrow> bool \<times> RuleEngine" where
  "invokeCond host rule e =
     (let e1 = startTrackingCells e;
          (r, e2) = invokeCallback host ''ruleFuncs'' (CbKey (cond (heap e1 rule))) None e1
      in (r, storeRuleTrackedCells rule e2))"

definition ShouldCheck :: "ruleptr \<Rightarrow> RuleEngine \<Rightarrow> RuleEngine" where
  "ShouldCheck rule e = setRule rule ((heap e rule)\<lparr> shouldCheck := True \<rparr>) e"

text \<open>The loop over \<open>rule.onCellChange\<close> in \<open>Check\<close>, which stops at the first match.\<close>
primrec cellListed :: "Cell \<Rightarrow> Cell list \<Rightarrow> bool" where
  "cellListed c [] = False"
| "cellListed c (checkCell # rest) = (if c = checkCell then True else cellListed c rest)"

text \<open>
  The \<open>switch\<close> of \<open>Check\<close>: it yields \<open>shouldFire\<close>, the arguments for the body and the
  engine after the case taken.
\<close>
definition checkSwitch ::
  "ScriptHost \<Rightarrow> CellModel \<Rightarrow> Cell option \<Rightarrow> ruleptr \<Rightarrow> RuleEngine
     \<Rightarrow> bool \<times> CallArgs option \<times> RuleEngine" where
  "checkSwitch host m c rule e =
     (if ruleType (heap e rule) = RULE_TYPE_LEVEL_TRIGGERED then
        (let (r, e1) = invokeCond host rule e in (r, None, e1))
      else if ruleType (heap e rule) = RULE_TYPE_EDGE_TRIGGERED then
        (let (current, e1) = invokeCond host rule e;
             shouldFire = (current \<and>
               (firstRun (heap e1 rule) \<or> current \<noteq> prevCondValue (heap e1 rule)))
         in (shouldFire, None,
             setRule rule ((heap e1 rule)\<lparr> prevCondValue := current \<rparr>) e1))
      else if ruleType (heap e rule) = RULE_TYPE_ON_CELL_CHANGE then
        (case c of
           None \<Rightarrow> (False, None, e)
         | Some cl \<Rightarrow>
             if IsComplete m cl \<and> cellListed cl (onCellChange (heap e rule))
             then (True,
                   Some \<lparr> device = cellDevName cl, cell = cellName cl,
                          newValue = Value m cl,
                          oldValue = oldCellValue (heap e rule) \<rparr>,
                   setRule rule ((heap e rule)\<lparr> oldCellValue := Some (Value m cl) \<rparr>) e)
             else (False, None, e))
      else (False, None, e))"

definition Check ::
  "ScriptHost \<Rightarrow> CellModel \<Rightarrow> Cell option \<Rightarrow> ruleptr \<Rightarrow> RuleEngine \<Rightarrow> panic + RuleEngine" where
  "Check host m c rule e =
     (if c \<noteq> None \<and> \<not> shouldCheck (heap e rule) then Inr e
      else if ruleType (heap e rule) = RULE_TYPE_NONE
      then Inl (Panic ''invoking a destroyed rule'')
      else
        (let (shouldFire, args, e1) = checkSwitch host m c rule e;
             e2 = setRule rule ((heap e1 rule)\<lparr> firstRun := False, shouldCheck := False \<rparr>) e1
         in if shouldFire
            then Inr (snd (invokeCallback host ''ruleFuncs'' (CbKey (then' (heap e2 rule))) args e2))
            else Inr e2))"

definition Destroy :: "ruleptr \<Rightarrow> RuleEngine \<Rightarrow> RuleEngine" where
  "Destroy rule e =
     (let e1 = (if cond (heap e rule) \<noteq> 0
                then removeCallback ''ruleFuncs'' (CbKey (cond (heap e rule))) e else e);
          e2 = (if then' (heap e1 rule) \<noteq> 0
                then removeCallback ''ruleFuncs'' (CbKey (then' (heap e1 rule))) e1 else e1)
      in setRule rule ((heap e2 rule)\<lparr> ruleType := RULE_TYPE_NONE \<rparr>) e2)"

subsection \<open>Timers\<close>

datatype DukRet = Ret0 | Ret1 JSVal | DUK_RET_ERROR | DUK_RET_TYPE_ERROR

fun GetNumber :: "JSVal \<Rightarrow> int" where
  "GetNumber (JSNum n) = n"
| "GetNumber v = 0"

text \<open>The conversion of a script number to a Go \<open>int\<close>; numbers are integers here.\<close>
fun GetInt :: "JSVal \<Rightarrow> int" where
  "GetInt (JSNum n) = n"
| "GetInt v = 0"

fun GetString :: "JSVal \<Rightarrow> string" where
  "GetString (JSStr s) = s"
| "GetString v = []"

text \<open>
  The slot search of \<open>esWbStartTimer\<close>:
  \<^verbatim>\<open>for n = 1; n <= len(engine.timers); n++ {
      if engine.timers[n - 1] == nil { engine.timers[n - 1] = entry }
      break
  }\<close>
  The \<open>break\<close> is the last statement of the body and is outside the \<open>if\<close>, so the body
  runs at most once, with \<open>n = 1\<close>, and \<open>n\<close> is never incremented.
\<close>
definition timerSlotLoop ::
  "TimerEntry \<Rightarrow> TimerEntry option list \<Rightarrow> int \<times> TimerEntry option list" where
  "timerSlotLoop entry ts =
     (let n = 1 in
      if n \<le> int (length ts)
      then (n, if ts ! nat (n - 1) = None then ts[nat (n - 1) := Some entry] else ts)
      else (n, ts))"

definition esWbStartTimer :: "JSVal list \<Rightarrow> RuleEngine \<Rightarrow> DukRet \<times> RuleEngine" where
  "esWbStartTimer args e =
     (case args of
        [callback, msv, pv] \<Rightarrow>
          if \<not> IsFunction callback \<or> \<not> IsNumber msv then (DUK_RET_ERROR, e)
          else
            (let ms = GetNumber msv;
                 entry = \<lparr> periodic = ToBoolean pv, duration = ms \<rparr>;
                 (n, ts1) = timerSlotLoop entry (timers e);
                 ts2 = (if n > int (length ts1) then ts1 @ [Some entry] else ts1);
                 e1 = snd (storeCallback ''ruleEngineTimers'' callback (Some (IntKey n))
                             (e\<lparr> timers := ts2 \<rparr>))
             in (Ret1 (JSNum n), e1))
      | _ \<Rightarrow> (DUK_RET_ERROR, e))"

definition removeTimer :: "int \<Rightarrow> RuleEngine \<Rightarrow> panic + RuleEngine" where
  "removeTimer n e =
     (let e1 = removeCallback ''ruleEngineTimers'' (IntKey n) e in
      if n - 1 < 0 \<or> int (length (timers e1)) \<le> n - 1 then Inl IndexOutOfRange
      else Inr (e1\<lparr> timers := (timers e1)[nat (n - 1) := None] \<rparr>))"

definition esWbStopTimer :: "JSVal list \<Rightarrow> RuleEngine \<Rightarrow> panic + DukRet \<times> RuleEngine" where
  "esWbStopTimer args e =
     (case args of
        [v] \<Rightarrow>
          if \<not> IsNumber v then Inr (DUK_RET_ERROR, e)
          else
            (let n = GetInt v in
             if n = 0 then Inr (Ret0, logError ''timer id cannot be zero'' e)
             else if n - 1 < 0 \<or> int (length (timers e)) \<le> n - 1 then Inl IndexOutOfRange
             else
               (case timers e ! nat (n - 1) of
                  Some entry \<Rightarrow>
                    (case removeTimer n e of
                       Inl x \<Rightarrow> Inl x
                     | Inr e1 \<Rightarrow> Inr (Ret0, e1))
                | None \<Rightarrow> Inr (Ret0, logError ''trying to stop unknown timer: %d'' e)))
      | _ \<Rightarrow> Inr (DUK_RET_ERROR, e))"

definition fireTimer :: "ScriptHost \<Rightarrow> int \<Rightarrow> RuleEngine \<Rightarrow> panic + RuleEngine" where
  "fireTimer host n e =
     (if n - 1 < 0 \<or> int (length (timers e)) \<le> n - 1 then Inl IndexOutOfRange
      else
        (case timers e ! nat (n - 1) of
           None \<Rightarrow> Inr (logError ''firing unknown timer %d'' e)
         | Some entry \<Rightarrow>
             (let e1 = snd (invokeCallback host ''ruleEngineTimers'' (IntKey n) None e)
              in if \<not> periodic entry then removeTimer n e1 else Inr e1)))"

subsection \<open>Defining rules\<close>

text \<open>\<open>strings.SplitN(s, "/", 2)\<close>: one part when \<open>s\<close> has no slash, else two.\<close>
fun SplitN2 :: "string \<Rightarrow> string list" where
  "SplitN2 [] = [[]]"
| "SplitN2 (c # cs) =
     (if c = CHR ''/'' then [[], cs]
      else (case SplitN2 cs of [] \<Rightarrow> [[c]] | p # ps \<Rightarrow> (c # p) # ps))"

text \<open>
  Modelled from the spec: \<open>StringArrayToGo\<close> is not among the sources. The spec allows
  a list of cell references for \<open>onCellChange\<close>, so an array of strings yields its items;
  any other value yields no names.
\<close>
fun StringArrayToGo :: "JSVal \<Rightarrow> string list" where
  "StringArrayToGo (JSArr vs) = (if list_all IsString vs then map GetString vs else [])"
| "StringArrayToGo v = []"

text \<open>
  The loop of \<open>newRule\<close> over the cell names. The source allocates the slice of cells
  at full length and fills it; here it grows, which differs only in \<open>nil\<close> entries
  that no changed cell can equal.
\<close>
fun storeCells :: "ruleptr \<Rightarrow> string list \<Rightarrow> RuleEngine \<Rightarrow> string option \<times> RuleEngine" where
  "storeCells rule [] e = (None, e)"
| "storeCells rule (fullName # rest) e =
     (let parts = SplitN2 fullName in
      if length parts \<noteq> 2 then (Some ''invalid onCellChange spec: %s'', e)
      else
        (let cl = getCell (parts ! 0) (parts ! 1);
             e1 = setRule rule
                    ((heap e rule)\<lparr> onCellChange := onCellChange (heap e rule) @ [cl] \<rparr>) e
         in storeCells rule rest (storeRuleCell rule cl e1)))"

definition newRule :: "string \<Rightarrow> JSVal \<Rightarrow> RuleEngine \<Rightarrow> (string + ruleptr) \<times> RuleEngine" where
  "newRule nm def e =
     (let rule = nextRule e;
          e0 = (setRule rule
                 \<lparr> name = nm, cond = 0, then' = 0, onCellChange = [], ruleType = 0,
                   firstRun = True, prevCondValue = False, oldCellValue = None,
                   shouldCheck = False \<rparr> e)\<lparr> nextRule := nextRule e + 1 \<rparr>
      in
      if \<not> HasPropString def ''then'' then (Inl ''invalid rule -- no then'', e0)
      else
        (let (cb, e1) = storeCallback ''ruleFuncs'' (GetPropString def ''then'') None e0;
             e2 = setRule rule ((heap e1 rule)\<lparr> then' := cb \<rparr>) e1;
             hasWhen = HasPropString def ''when'';
             hasAsSoonAs = HasPropString def ''asSoonAs'';
             hasOnCellChange = HasPropString def ''onCellChange''
         in
         if hasWhen then
           (if hasAsSoonAs \<or> hasOnCellChange
            then (Inl ''invalid rule -- cannot combine when with asSoonAs or onCellChange'', e2)
            else
              (let (cb2, e3) = storeCallback ''ruleFuncs'' (GetPropString def ''when'') None e2
               in (Inr rule,
                   setRule rule ((heap e3 rule)\<lparr> cond := cb2,
                     ruleType := RULE_TYPE_LEVEL_TRIGGERED \<rparr>) e3)))
         else if hasAsSoonAs then
           (if hasOnCellChange
            then (Inl ''invalid rule -- cannot combine asSoonAs with onCellChange'', e2)
            else
              (let (cb2, e3) = storeCallback ''ruleFuncs'' (GetPropString def ''asSoonAs'') None e2
               in (Inr rule,
                   setRule rule ((heap e3 rule)\<lparr> cond := cb2,
                     ruleType := RULE_TYPE_EDGE_TRIGGERED \<rparr>) e3)))
         else if hasOnCellChange then
           (let v = GetPropString def ''onCellChange'';
                cellNames = (if IsString v then [GetString v] else StringArrayToGo v)
            in
            if \<not> IsString v \<and> length cellNames = 0 then (Inl ''empty onCellChange'', e2)
            else
              (let e3 = setRule rule ((heap e2 rule)\<lparr> ruleType := RULE_TYPE_ON_CELL_CHANGE,
                          onCellChange := [] \<rparr>) e2
               in case storeCells rule cellNames e3 of
                    (Some err, e4) \<Rightarrow> (Inl err, e4)
                  | (None, e4) \<Rightarrow> (Inr rule, e4)))
         else
           (Inl ''invalid rule -- must provide one of when, asSoonAs or onCellChange'', e2)))"

definition esWbDefineRule :: "JSVal list \<Rightarrow> RuleEngine \<Rightarrow> DukRet \<times> RuleEngine" where
  "esWbDefineRule args e =
     (case args of
        [nv, def] \<Rightarrow>
          if \<not> IsString nv \<or> \<not> IsObject def
          then (DUK_RET_ERROR, logError ''bad rule definition'' e)
          else
            (let nm = GetString nv in
             case newRule nm def e of
               (Inl err, e1) \<Rightarrow> (DUK_RET_ERROR, logError ''bad definition of rule %s: %s'' e1)
             | (Inr rule, e1) \<Rightarrow>
                 (let e2 = (case ruleMap e1 nm of
                              Some oldRule \<Rightarrow> Destroy oldRule e1
                            | None \<Rightarrow> e1\<lparr> ruleList := ruleList e1 @ [nm] \<rparr>)
                  in (Ret0, e2\<lparr> ruleMap := (ruleMap e2)(nm \<mapsto> rule) \<rparr>)))
      | _ \<Rightarrow> (DUK_RET_ERROR, logError ''bad rule definition'' e))"

subsection \<open>The scheduler\<close>

text \<open>The marking part of \<open>RunRules\<close> for a changed cell.\<close>
definition markRules :: "CellModel \<Rightarrow> Cell \<Rightarrow> RuleEngine \<Rightarrow> RuleEngine" where
  "markRules m cl e =
     (let e1 = (if IsComplete m cl
                then (case cellToRuleMap e cl of
                        Some list \<Rightarrow> fold ShouldCheck list e
                      | None \<Rightarrow> e)
                else e)
      in fold ShouldCheck (rulesWithoutCells e1) e1)"

text \<open>The loop of \<open>RunRules\<close> over \<open>ruleList\<close>; a name without a rule is a nil receiver.\<close>
fun checkRules ::
  "ScriptHost \<Rightarrow> CellModel \<Rightarrow> Cell option \<Rightarrow> string list \<Rightarrow> RuleEngine \<Rightarrow> panic + RuleEngine" where
  "checkRules host m c [] e = Inr e"
| "checkRules host m c (nm # names) e =
     (case ruleMap e nm of
        None \<Rightarrow> Inl NilPointer
      | Some rule \<Rightarrow>
          (case Check host m c rule e of
             Inl x \<Rightarrow> Inl x
           | Inr e1 \<Rightarrow> checkRules host m c names e1))"

definition RunRules ::
  "ScriptHost \<Rightarrow> CellModel \<Rightarrow> CellSpec option \<Rightarrow> RuleEngine \<Rightarrow> panic + RuleEngine" where
  "RunRules host m cellSpec e =
     (case cellSpec of
        None \<Rightarrow> checkRules host m None (ruleList e) e
      | Some cs \<Rightarrow>
          (let cl = getCell (DevName cs) (CellName cs);
               e1 = markRules m cl e
           in checkRules host m (Some cl) (ruleList e1) e1))"

section \<open>The script-side runtime (src/scripts/lib.js)\<close>

text \<open>
  The runtime object \<open>_WbRules\<close> keeps the counter \<open>requireCompleteCells\<close>. A script
  function is a transformer of the runtime state that completes normally with a value
  or throws.
\<close>
datatype JsError = IncompleteCellCaught string | OtherError string

datatype completion = Normal JSVal | Throw JsError

record WbRules =
  requireCompleteCells :: int

type_synonym jsfunc = "WbRules \<Rightarrow> completion \<times> WbRules"

fun toJS :: "CellValue \<Rightarrow> JSVal" where
  "toJS (BoolValue b) = JSBool b"
| "toJS (NumValue n) = JSNum n"
| "toJS (StrValue s) = JSStr s"

text \<open>
  The \<open>get\<close> trap of the device proxy built by \<open>getDevValue\<close>: reading cell \<open>nm\<close> of
  device \<open>dev\<close>.
\<close>
definition devGet :: "CellModel \<Rightarrow> string \<Rightarrow> string \<Rightarrow> jsfunc" where
  "devGet m dev nm s =
     (if requireCompleteCells s \<noteq> 0 \<and> \<not> IsComplete m (dev, nm)
      then (Throw (IncompleteCellCaught nm), s)
      else (Normal (toJS (Value m (dev, nm))), s))"

fun typeofBoolean :: "JSVal \<Rightarrow> bool" where
  "typeofBoolean (JSBool b) = True"
| "typeofBoolean v = False"

definition wrapConditionFunc :: "jsfunc \<Rightarrow> JSVal \<Rightarrow> jsfunc" where
  "wrapConditionFunc f incompleteValue s =
     (let conv = (if typeofBoolean incompleteValue
                  then (\<lambda>v. JSBool (ToBoolean v)) else (\<lambda>v. v));
          s1 = s\<lparr> requireCompleteCells := requireCompleteCells s + 1 \<rparr>;
          (r, s2) = f s1;
          res = (case r of
                   Normal v \<Rightarrow> Normal (conv v)
                 | Throw (IncompleteCellCaught cn) \<Rightarrow> Normal incompleteValue
                 | Throw err \<Rightarrow> Throw err)
      in (res, s2\<lparr> requireCompleteCells := requireCompleteCells s2 - 1 \<rparr>))"

text \<open>The wrapping \<open>defineRule\<close> applies to \<open>when\<close> and \<open>asSoonAs\<close>.\<close>
definition wrapWhen :: "jsfunc \<Rightarrow> jsfunc" where
  "wrapWhen orig = wrapConditionFunc orig (JSBool False)"

section \<open>Runs of the engine and sample states\<close>

text \<open>The rules listed for a cell; a cell without an entry has none.\<close>
definition cellRules :: "RuleEngine \<Rightarrow> Cell \<Rightarrow> ruleptr list" where
  "cellRules e c = (case cellToRuleMap e c of None \<Rightarrow> [] | Some l \<Rightarrow> l)"

text \<open>
  One operation of the engine that returns: the entry points of the bridge, a
  scheduler pass, a single \<open>Check\<close>, a timer tick, and \<open>Destroy\<close>.
\<close>
inductive engineStep :: "RuleEngine \<Rightarrow> RuleEngine \<Rightarrow> bool" where
  stepDefineRule: "esWbDefineRule args e = (r, e') \<Longrightarrow> engineStep e e'"
| stepRunRules: "RunRules host m cs e = Inr e' \<Longrightarrow> engineStep e e'"
| stepCheck: "Check host m c rule e = Inr e' \<Longrightarrow> engineStep e e'"
| stepDestroy: "engineStep e (Destroy rule e)"
| stepStartTimer: "esWbStartTimer args e = (r, e') \<Longrightarrow> engineStep e e'"
| stepStopTimer: "esWbStopTimer args e = Inr (r, e') \<Longrightarrow> engineStep e e'"
| stepFireTimer: "fireTimer host n e = Inr e' \<Longrightarrow> engineStep e e'"

text \<open>Observers of the outcome of an operation that may panic.\<close>
definition ruleAfter :: "panic + RuleEngine \<Rightarrow> ruleptr \<Rightarrow> Rule option" where
  "ruleAfter r p = (case r of Inl x \<Rightarrow> None | Inr e \<Rightarrow> Some (heap e p))"

definition callsAfter :: "panic + RuleEngine \<Rightarrow> Invocation list option" where
  "callsAfter r = (case r of Inl x \<Rightarrow> None | Inr e \<Rightarrow> Some (calls e))"

definition withoutCellsAfter :: "panic + RuleEngine \<Rightarrow> ruleptr list option" where
  "withoutCellsAfter r = (case r of Inl x \<Rightarrow> None | Inr e \<Rightarrow> Some (rulesWithoutCells e))"

definition andThen ::
  "panic + RuleEngine \<Rightarrow> (RuleEngine \<Rightarrow> panic + RuleEngine) \<Rightarrow> panic + RuleEngine" where
  "andThen r f = (case r of Inl x \<Rightarrow> Inl x | Inr e \<Rightarrow> f e)"

text \<open>
  A cell model in which only \<open>Weather/Temp1\<close> has received a value, and every cell
  reads 18.
\<close>
definition sampleModel :: CellModel where
  "sampleModel =
     \<lparr> IsComplete = (\<lambda>c. c = (''Weather'', ''Temp1'')), Value = (\<lambda>c. NumValue 18) \<rparr>"

text \<open>Script hosts in which every function reads no cell and returns true, or throws.\<close>
definition hostTrue :: ScriptHost where
  "hostTrue f = JsRun [] (Returned (JSBool True))"

definition hostThrow :: ScriptHost where
  "hostThrow f = JsRun [] Threw"

text \<open>Engines right after one \<open>defineRule\<close> on a new engine, one per trigger.\<close>
definition levelEngine :: RuleEngine where
  "levelEngine = snd (esWbDefineRule
     [JSStr ''heaterOff'', JSObj [(''when'', JSFun 1), (''then'', JSFun 2)]] NewRuleEngine)"

definition edgeEngine :: RuleEngine where
  "edgeEngine = snd (esWbDefineRule
     [JSStr ''heaterOn'', JSObj [(''asSoonAs'', JSFun 1), (''then'', JSFun 2)]] NewRuleEngine)"

definition changeEngine :: RuleEngine where
  "changeEngine = snd (esWbDefineRule
     [JSStr ''tempChange'', JSObj [(''onCellChange'', JSStr ''Weather/Temp1''), (''then'', JSFun 2)]]
     NewRuleEngine)"

text \<open>An engine with one single-shot timer running.\<close>
definition timerEngine :: RuleEngine where
  "timerEngine = snd (esWbStartTimer [JSFun 3, JSNum 100, JSBool False] NewRuleEngine)"

text \<open>A user condition that reads the cell \<open>Weather/Temp2\<close>, which has no value yet.\<close>
definition readTemp2 :: jsfunc where
  "readTemp2 = devGet sampleModel ''Weather'' ''Temp2''"

text \<open>A user condition that throws an error of its own.\<close>
definition failingCond :: jsfunc where
  "failingCond s = (Throw (OtherError ''boom''), s)"

text \<open>Three rules \<open>A\<close>, \<open>B\<close> and \<open>C\<close> defined in this order on a new engine.\<close>
definition threeRules :: RuleEngine where
  "threeRules =
     snd (esWbDefineRule
            [JSStr ''C'', JSObj [(''onCellChange'', JSStr ''Weather/Temp1''), (''then'', JSFun 6)]]
       (snd (esWbDefineRule
            [JSStr ''B'', JSObj [(''asSoonAs'', JSFun 3), (''then'', JSFun 4)]]
       (snd (esWbDefineRule
            [JSStr ''A'', JSObj [(''when'', JSFun 1), (''then'', JSFun 2)]]
            NewRuleEngine)))))"

text \<open>A second definition of \<open>B\<close>, and a definition of a new rule \<open>D\<close>.\<close>
definition defineB :: "JSVal list" where
  "defineB = [JSStr ''B'', JSObj [(''when'', JSFun 7), (''then'', JSFun 8)]]"

definition defineD :: "JSVal list" where
  "defineD = [JSStr ''D'', JSObj [(''when'', JSFun 9), (''then'', JSFun 10)]]"

text \<open>The definition of the rule of \<open>changeEngine\<close>, for defining it a second time.\<close>
definition defineTempChange :: "JSVal list" where
  "defineTempChange =
     [JSStr ''tempChange'', JSObj [(''onCellChange'', JSStr ''Weather/Temp1''), (''then'', JSFun 2)]]"

text \<open>
  No entry of the two dependency indexes is lost between two engines: each list of
  \<open>cellToRuleMap\<close> has at most grown at its end, and \<open>rulesWithoutCells\<close> has at most
  gained members.
\<close>
definition entriesKept :: "RuleEngine \<Rightarrow> RuleEngine \<Rightarrow> bool" where
  "entriesKept e e' \<longleftrightarrow>
     (\<forall>c. prefix (cellRules e c) (cellRules e' c)) \<and>
     set (rulesWithoutCells e) \<subseteq> set (rulesWithoutCells e')"

section \<open>Auxiliary facts\<close>

lemmas engine_defs = esWbDefineRule_def newRule_def NewRuleEngine_def storeCallback_def
  setRule_def Destroy_def removeCallback_def logError_def RunRules_def markRules_def
  Check_def checkSwitch_def invokeCond_def invokeCallback_def startTrackingCells_def
  storeRuleTrackedCells_def storeRuleCell_def trackCell_def ShouldCheck_def getCell_def
  RULE_TYPE_NONE_def RULE_TYPE_LEVEL_TRIGGERED_def RULE_TYPE_EDGE_TRIGGERED_def
  RULE_TYPE_ON_CELL_CHANGE_def cellDevName_def cellName_def cellRules_def
  esWbStartTimer_def esWbStopTimer_def timerSlotLoop_def removeTimer_def

lemmas sample_defs = sampleModel_def hostTrue_def hostThrow_def levelEngine_def
  edgeEngine_def changeEngine_def timerEngine_def ruleAfter_def callsAfter_def andThen_def

subsection \<open>Closed forms of the loops over cells and rules\<close>

lemma fold_trackCell:
  "fold trackCell cs e = e\<lparr> notedCells := map_option (fold List.insert cs) (notedCells e) \<rparr>"
proof (induction cs arbitrary: e)
  case Nil
  show ?case by (cases "notedCells e") simp_all
next
  case (Cons c cs)
  have "fold trackCell (c # cs) e = fold trackCell cs (trackCell c e)"
    by simp
  also have "\<dots> = (trackCell c e)\<lparr> notedCells :=
      map_option (fold List.insert cs) (notedCells (trackCell c e)) \<rparr>"
    by (rule Cons)
  also have "\<dots> = e\<lparr> notedCells := map_option (fold List.insert (c # cs)) (notedCells e) \<rparr>"
    by (cases "notedCells e") (simp_all add: trackCell_def)
  finally show ?case .
qed

lemma fold_storeRuleCell:
  "fold (storeRuleCell rule) cs e =
     e\<lparr> cellToRuleMap :=
          fold (\<lambda>c mp. mp(c \<mapsto> (case mp c of None \<Rightarrow> [] | Some l \<Rightarrow> l) @ [rule])) cs
            (cellToRuleMap e) \<rparr>"
  by (induction cs arbitrary: e) (simp_all add: storeRuleCell_def)

lemma fold_ShouldCheck:
  "fold ShouldCheck rs e =
     e\<lparr> heap := fold (\<lambda>r h. h(r := (h r)\<lparr> shouldCheck := True \<rparr>)) rs (heap e) \<rparr>"
  by (induction rs arbitrary: e) (simp_all add: ShouldCheck_def setRule_def)

lemma fold_mark_heap:
  "fold (\<lambda>r h. h(r := (h r)\<lparr> shouldCheck := True \<rparr>)) rs h p =
     (if p \<in> set rs then (h p)\<lparr> shouldCheck := True \<rparr> else h p)"
  by (induction rs arbitrary: h) auto


subsection \<open>What a callback and a condition leave unchanged\<close>

lemma heap_invokeCallback [simp]:
  "heap (snd (invokeCallback host pn k args e)) = heap e"
  by (simp add: invokeCallback_def Let_def logError_def fold_trackCell
      split: option.splits JSVal.splits JsRun.splits JsResult.splits)

lemma calls_invokeCallback [simp]:
  "calls (snd (invokeCallback host pn k args e)) = calls e @ [Invocation pn k args]"
  by (simp add: invokeCallback_def Let_def logError_def fold_trackCell
      split: option.splits JSVal.splits JsRun.splits JsResult.splits)

lemma heap_storeRuleTrackedCells [simp]:
  "heap (storeRuleTrackedCells rule e) = heap e"
  by (simp add: storeRuleTrackedCells_def Let_def fold_storeRuleCell)

lemma calls_storeRuleTrackedCells [simp]:
  "calls (storeRuleTrackedCells rule e) = calls e"
  by (simp add: storeRuleTrackedCells_def Let_def fold_storeRuleCell)

lemma heap_invokeCond [simp]:
  "heap (snd (invokeCond host rule e)) = heap e"
  by (simp add: invokeCond_def Let_def startTrackingCells_def split_beta)

lemma calls_invokeCond [simp]:
  "calls (snd (invokeCond host rule e)) =
     calls e @ [Invocation ''ruleFuncs'' (CbKey (cond (heap e rule))) None]"
  by (simp add: invokeCond_def Let_def startTrackingCells_def split_beta)

lemma rule_types_distinct:
  "RULE_TYPE_EDGE_TRIGGERED \<noteq> RULE_TYPE_NONE"
  "RULE_TYPE_EDGE_TRIGGERED \<noteq> RULE_TYPE_LEVEL_TRIGGERED"
  "RULE_TYPE_LEVEL_TRIGGERED \<noteq> RULE_TYPE_NONE"
  "RULE_TYPE_ON_CELL_CHANGE \<noteq> RULE_TYPE_NONE"
  "RULE_TYPE_ON_CELL_CHANGE \<noteq> RULE_TYPE_LEVEL_TRIGGERED"
  "RULE_TYPE_ON_CELL_CHANGE \<noteq> RULE_TYPE_EDGE_TRIGGERED"
  by (simp_all add: RULE_TYPE_EDGE_TRIGGERED_def RULE_TYPE_NONE_def
      RULE_TYPE_LEVEL_TRIGGERED_def RULE_TYPE_ON_CELL_CHANGE_def)

subsection \<open>The sample engines\<close>

lemma heap_levelEngine:
  "heap levelEngine 0 = \<lparr> name = ''heaterOff'', cond = 2, then' = 1, onCellChange = [],
     ruleType = RULE_TYPE_LEVEL_TRIGGERED, firstRun = True, prevCondValue = False,
     oldCellValue = None, shouldCheck = False \<rparr>"
  by (simp add: engine_defs sample_defs Let_def)

lemma heap_edgeEngine:
  "heap edgeEngine 0 = \<lparr> name = ''heaterOn'', cond = 2, then' = 1, onCellChange = [],
     ruleType = RULE_TYPE_EDGE_TRIGGERED, firstRun = True, prevCondValue = False,
     oldCellValue = None, shouldCheck = False \<rparr>"
  by (simp add: engine_defs sample_defs Let_def)


section \<open>Trigger semantics of \<open>Check\<close>\<close>

text \<open>
  C10. A call \<open>Check(cell)\<close> with a non-nil cell on a rule whose \<open>shouldCheck\<close> flag is
  false returns the engine as it was: no script callback is invoked (\<open>calls\<close> is part
  of the engine) and \<open>firstRun\<close>, \<open>prevCondValue\<close>, \<open>oldCellValue\<close> and \<open>shouldCheck\<close>
  of the rule keep their values.
\<close>
theorem check_skips_unmarked_rule:
  "\<not> shouldCheck (heap e rule) \<Longrightarrow> Check host m (Some c) rule e = Inr e"
  by (simp add: Check_def)

theorem check_skips_unmarked_rule_witness:
  "\<not> shouldCheck (heap edgeEngine 0) \<and> firstRun (heap edgeEngine 0) \<and>
   Check hostTrue sampleModel (Some (''Weather'', ''Temp1'')) 0 edgeEngine = Inr edgeEngine"
  using check_skips_unmarked_rule [of edgeEngine 0 hostTrue sampleModel "(''Weather'', ''Temp1'')"]
  by (simp add: heap_edgeEngine)

text \<open>
  C1. When \<open>Check\<close> evaluates the condition of an edge-triggered rule (the pass is a
  forced one, or the rule is marked), with \<open>current\<close> the boolean \<open>invokeCond\<close> returned:
  after the call of the condition, the body is called if and only if \<open>current\<close> holds
  and the rule's \<open>firstRun\<close> is set or \<open>current\<close> differs from the stored
  \<open>prevCondValue\<close>; and \<open>prevCondValue\<close> is \<open>current\<close> afterwards.
\<close>
theorem edge_rule_fires_on_rising_edge:
  assumes edge: "ruleType (heap e rule) = RULE_TYPE_EDGE_TRIGGERED"
    and run: "c = None \<or> shouldCheck (heap e rule)"
  shows "\<exists>e'. Check host m c rule e = Inr e' \<and>
           prevCondValue (heap e' rule) = fst (invokeCond host rule e) \<and>
           calls e' = calls e @
             [Invocation ''ruleFuncs'' (CbKey (cond (heap e rule))) None] @
             (if fst (invokeCond host rule e) \<and>
                 (firstRun (heap e rule) \<or>
                  fst (invokeCond host rule e) \<noteq> prevCondValue (heap e rule))
              then [Invocation ''ruleFuncs'' (CbKey (then' (heap e rule))) None]
              else [])"
proof -
  obtain current e1 where ic: "invokeCond host rule e = (current, e1)"
    by (cases "invokeCond host rule e")
  have h1: "heap e1 = heap e"
    using heap_invokeCond [of host rule e] ic by simp
  have c1: "calls e1 = calls e @ [Invocation ''ruleFuncs'' (CbKey (cond (heap e rule))) None]"
    using calls_invokeCond [of host rule e] ic by simp
  show ?thesis
    using run edge rule_types_distinct
    by (auto simp add: Check_def checkSwitch_def ic h1 c1 setRule_def Let_def)
qed

theorem edge_rule_fires_on_rising_edge_witness:
  "ruleType (heap edgeEngine 0) = RULE_TYPE_EDGE_TRIGGERED \<and>
   fst (invokeCond hostTrue 0 edgeEngine) \<and>
   (\<exists>e'. Check hostTrue sampleModel None 0 edgeEngine = Inr e' \<and>
      prevCondValue (heap e' 0) \<and>
      calls e' = [Invocation ''ruleFuncs'' (CbKey 2) None,
                  Invocation ''ruleFuncs'' (CbKey 1) None])"
proof -
  have cur: "fst (invokeCond hostTrue 0 edgeEngine)"
    by (simp add: engine_defs sample_defs Let_def)
  have cl: "calls edgeEngine = []"
    by (simp add: engine_defs sample_defs Let_def)
  show ?thesis
    using edge_rule_fires_on_rising_edge [of edgeEngine 0 None hostTrue sampleModel] cur
    by (simp add: heap_edgeEngine cl)
qed

section \<open>Exceptions in conditions\<close>

lemma invokeCallback_Threw:
  assumes "stash e pn k = Some (JSFun f)" and "host f = JsRun reads Threw"
  shows "fst (invokeCallback host pn k args e) = False"
  using assms by (simp add: invokeCallback_def Let_def)

lemma invokeCond_Threw:
  assumes "stash e ''ruleFuncs'' (CbKey (cond (heap e rule))) = Some (JSFun f)"
    and "host f = JsRun reads Threw"
  shows "fst (invokeCond host rule e) = False"
proof -
  have "fst (invokeCallback host ''ruleFuncs'' (CbKey (cond (heap e rule))) None
          (startTrackingCells e)) = False"
    by (rule invokeCallback_Threw [where f = f and reads = reads])
      (simp_all add: startTrackingCells_def assms)
  then show ?thesis
    by (simp add: invokeCond_def Let_def split_beta startTrackingCells_def)
qed

text \<open>
  C2, as the code has it. If the condition of a level- or edge-triggered rule throws
  while \<open>Check\<close> evaluates it, the condition counts as false for that pass: the only
  script call of the \<open>Check\<close> is the condition, so the body does not fire; and for an
  edge-triggered rule \<open>prevCondValue\<close> is set to false by that pass, as by any
  evaluation that returns false.
\<close>
theorem throwing_condition_counts_as_false:
  assumes callee: "stash e ''ruleFuncs'' (CbKey (cond (heap e rule))) = Some (JSFun f)"
    and throws: "host f = JsRun reads Threw"
    and kind: "ruleType (heap e rule) = RULE_TYPE_LEVEL_TRIGGERED \<or>
               ruleType (heap e rule) = RULE_TYPE_EDGE_TRIGGERED"
    and run: "c = None \<or> shouldCheck (heap e rule)"
  shows "\<exists>e'. Check host m c rule e = Inr e' \<and>
           calls e' = calls e @ [Invocation ''ruleFuncs'' (CbKey (cond (heap e rule))) None] \<and>
           (ruleType (heap e rule) = RULE_TYPE_EDGE_TRIGGERED \<longrightarrow>
              \<not> prevCondValue (heap e' rule))"
proof -
  obtain current e1 where ic: "invokeCond host rule e = (current, e1)"
    by (cases "invokeCond host rule e")
  have cur: "current = False"
    using invokeCond_Threw [of e rule f host reads] callee throws ic by simp
  have h1: "heap e1 = heap e"
    using heap_invokeCond [of host rule e] ic by simp
  have c1: "calls e1 = calls e @ [Invocation ''ruleFuncs'' (CbKey (cond (heap e rule))) None]"
    using calls_invokeCond [of host rule e] ic by simp
  show ?thesis
    using run kind rule_types_distinct
    by (auto simp add: Check_def checkSwitch_def ic cur h1 c1 setRule_def Let_def)
qed

theorem throwing_condition_counts_as_false_witness:
  "hostThrow 1 = JsRun [] Threw \<and>
   (\<exists>e'. Check hostThrow sampleModel None 0 edgeEngine = Inr e' \<and>
      calls e' = [Invocation ''ruleFuncs'' (CbKey 2) None] \<and>
      \<not> prevCondValue (heap e' 0))"
proof -
  have callee: "stash edgeEngine ''ruleFuncs'' (CbKey (cond (heap edgeEngine 0))) = Some (JSFun 1)"
    by (simp add: engine_defs sample_defs Let_def)
  have throws: "hostThrow 1 = JsRun [] Threw"
    by (simp add: hostThrow_def)
  have cl: "calls edgeEngine = []"
    by (simp add: engine_defs sample_defs Let_def)
  show ?thesis
    using throwing_condition_counts_as_false [of edgeEngine 0 1 hostThrow "[]" None sampleModel]
      callee throws
    by (simp add: heap_edgeEngine cl)
qed

text \<open>
  C2 as stated fails: after a pass in which the condition of the edge-triggered rule
  returned true, \<open>prevCondValue\<close> is true; the next pass, in which the condition
  throws, leaves it false.
\<close>
theorem throwing_condition_keeps_prevCondValue_counterexample:
  "map_option prevCondValue
     (ruleAfter (RunRules hostTrue sampleModel None edgeEngine) 0) = Some True \<and>
   map_option prevCondValue
     (ruleAfter (andThen (RunRules hostTrue sampleModel None edgeEngine)
                   (RunRules hostThrow sampleModel None)) 0) = Some False"
  by (simp add: engine_defs sample_defs Let_def)

section \<open>The marking of rules by \<open>RunRules\<close>\<close>

text \<open>
  C3, as the code has it. When the changed cell is not complete, \<open>RunRules\<close> marks no
  rule on account of \<open>cellToRuleMap\<close>, and marks every rule of \<open>rulesWithoutCells\<close>: the
  pass is the loop of \<open>Check\<close>s on the engine in which exactly those rules have
  \<open>shouldCheck\<close> set.
\<close>
theorem incomplete_cell_marks_rules_without_cells:
  assumes "\<not> IsComplete m (getCell (DevName cs) (CellName cs))"
  shows "RunRules host m (Some cs) e =
           checkRules host m (Some (getCell (DevName cs) (CellName cs))) (ruleList e)
             (e\<lparr> heap := (\<lambda>p. if p \<in> set (rulesWithoutCells e)
                                then (heap e p)\<lparr> shouldCheck := True \<rparr> else heap e p) \<rparr>)"
proof -
  have "fold (\<lambda>r h. h(r := (h r)\<lparr> shouldCheck := True \<rparr>)) (rulesWithoutCells e) (heap e) =
          (\<lambda>p. if p \<in> set (rulesWithoutCells e)
                then (heap e p)\<lparr> shouldCheck := True \<rparr> else heap e p)"
    by (rule ext) (simp add: fold_mark_heap)
  then have "markRules m (getCell (DevName cs) (CellName cs)) e =
          e\<lparr> heap := (\<lambda>p. if p \<in> set (rulesWithoutCells e)
                             then (heap e p)\<lparr> shouldCheck := True \<rparr> else heap e p) \<rparr>"
    using assms by (simp add: markRules_def fold_ShouldCheck)
  then show ?thesis
    by (simp add: RunRules_def Let_def)
qed

theorem incomplete_cell_marks_rules_without_cells_witness:
  "\<not> IsComplete sampleModel (getCell ''Weather'' ''Temp2'') \<and>
   callsAfter (RunRules hostTrue sampleModel
       (Some \<lparr> DevName = ''Weather'', CellName = ''Temp2'' \<rparr>)
       (levelEngine\<lparr> rulesWithoutCells := [0] \<rparr>)) =
     Some [Invocation ''ruleFuncs'' (CbKey 2) None, Invocation ''ruleFuncs'' (CbKey 1) None]"
proof -
  have inc: "\<not> IsComplete sampleModel
      (getCell (DevName \<lparr> DevName = ''Weather'', CellName = ''Temp2'' \<rparr>)
               (CellName \<lparr> DevName = ''Weather'', CellName = ''Temp2'' \<rparr>))"
    by (simp add: sampleModel_def getCell_def)
  show ?thesis
    using incomplete_cell_marks_rules_without_cells [OF inc, of hostTrue
        "levelEngine\<lparr> rulesWithoutCells := [0] \<rparr>"]
    by (simp add: engine_defs sample_defs Let_def)
qed

text \<open>
  C3 as stated fails. The level-triggered rule of \<open>levelEngine\<close> reads no cell in the
  first pass, which puts it among \<open>rulesWithoutCells\<close>. A change of the incomplete
  cell \<open>Weather/Temp2\<close> then sets its \<open>shouldCheck\<close> flag, and the pass for that change
  evaluates its condition and fires its body again.
\<close>
theorem incomplete_cell_marks_nothing_counterexample:
  "\<not> IsComplete sampleModel (getCell ''Weather'' ''Temp2'') \<and>
   map_option shouldCheck
     (ruleAfter (RunRules hostTrue sampleModel None levelEngine) 0) = Some False \<and>
   map_option shouldCheck
     (ruleAfter (andThen (RunRules hostTrue sampleModel None levelEngine)
                   (Inr \<circ> markRules sampleModel (getCell ''Weather'' ''Temp2''))) 0) = Some True \<and>
   callsAfter (RunRules hostTrue sampleModel None levelEngine) =
     Some [Invocation ''ruleFuncs'' (CbKey 2) None, Invocation ''ruleFuncs'' (CbKey 1) None] \<and>
   callsAfter (andThen (RunRules hostTrue sampleModel None levelEngine)
       (RunRules hostTrue sampleModel (Some \<lparr> DevName = ''Weather'', CellName = ''Temp2'' \<rparr>))) =
     Some [Invocation ''ruleFuncs'' (CbKey 2) None, Invocation ''ruleFuncs'' (CbKey 1) None,
           Invocation ''ruleFuncs'' (CbKey 2) None, Invocation ''ruleFuncs'' (CbKey 1) None]"
  by (simp add: engine_defs sample_defs Let_def)

section \<open>Timers\<close>

lemma timerSlotLoop_id: "fst (timerSlotLoop entry ts) = 1"
  by (simp add: timerSlotLoop_def Let_def)

lemma timerSlotLoop_table:
  "snd (timerSlotLoop entry ts) =
     (case ts of
        [] \<Rightarrow> []
      | None # rest \<Rightarrow> Some entry # rest
      | Some old # rest \<Rightarrow> Some old # rest)"
  by (cases ts) (auto simp add: timerSlotLoop_def Let_def)

text \<open>
  C4 does not hold of the code. Whatever the state of the timer table, a well-formed
  \<open>startTimer\<close> call returns the id 1: the entry is stored only when the table is empty
  (it is appended) or slot 1 is free; when slot 1 is occupied the table is left as it
  was, whether or not another slot is free, and the callback stored under key 1 is
  replaced.
\<close>
theorem start_timer_always_returns_id_1:
  assumes "IsFunction callback"
  shows "fst (esWbStartTimer [callback, JSNum ms, pv] e) = Ret1 (JSNum 1) \<and>
         timers (snd (esWbStartTimer [callback, JSNum ms, pv] e)) =
           (case timers e of
              [] \<Rightarrow> [Some \<lparr> periodic = ToBoolean pv, duration = ms \<rparr>]
            | None # rest \<Rightarrow> Some \<lparr> periodic = ToBoolean pv, duration = ms \<rparr> # rest
            | Some old # rest \<Rightarrow> Some old # rest) \<and>
         stash (snd (esWbStartTimer [callback, JSNum ms, pv] e)) ''ruleEngineTimers'' (IntKey 1) =
           Some callback"
proof -
  obtain n ts1 where loop:
    "timerSlotLoop \<lparr> periodic = ToBoolean pv, duration = ms \<rparr> (timers e) = (n, ts1)"
    by (cases "timerSlotLoop \<lparr> periodic = ToBoolean pv, duration = ms \<rparr> (timers e)")
  have n: "n = 1"
    using timerSlotLoop_id [of "\<lparr> periodic = ToBoolean pv, duration = ms \<rparr>" "timers e"] loop
    by simp
  have ts1: "ts1 = (case timers e of
        [] \<Rightarrow> []
      | None # rest \<Rightarrow> Some \<lparr> periodic = ToBoolean pv, duration = ms \<rparr> # rest
      | Some old # rest \<Rightarrow> Some old # rest)"
    using timerSlotLoop_table [of "\<lparr> periodic = ToBoolean pv, duration = ms \<rparr>" "timers e"] loop
    by simp
  show ?thesis
    using assms
    by (simp add: esWbStartTimer_def loop n ts1 storeCallback_def Let_def
        split: list.splits option.splits)
qed

text \<open>
  The failing input of C4: one timer runs (slot 1 is occupied and no slot is free), and
  a second one is started. The claim has the table grow and the id be 2; the code
  returns 1 and leaves the table alone. The same happens when a free slot 2 exists.
\<close>
theorem start_timer_always_returns_id_1_witness:
  "timers timerEngine = [Some \<lparr> periodic = False, duration = 100 \<rparr>] \<and>
   fst (esWbStartTimer [JSFun 4, JSNum 50, JSBool True] timerEngine) = Ret1 (JSNum 1) \<and>
   timers (snd (esWbStartTimer [JSFun 4, JSNum 50, JSBool True] timerEngine)) =
     [Some \<lparr> periodic = False, duration = 100 \<rparr>] \<and>
   stash (snd (esWbStartTimer [JSFun 4, JSNum 50, JSBool True] timerEngine))
     ''ruleEngineTimers'' (IntKey 1) = Some (JSFun 4) \<and>
   fst (esWbStartTimer [JSFun 4, JSNum 50, JSBool True]
          (timerEngine\<lparr> timers := timers timerEngine @ [None] \<rparr>)) = Ret1 (JSNum 1) \<and>
   timers (snd (esWbStartTimer [JSFun 4, JSNum 50, JSBool True]
          (timerEngine\<lparr> timers := timers timerEngine @ [None] \<rparr>))) =
     [Some \<lparr> periodic = False, duration = 100 \<rparr>, None]"
proof -
  have t: "timers timerEngine = [Some \<lparr> periodic = False, duration = 100 \<rparr>]"
    by (simp add: engine_defs sample_defs Let_def)
  show ?thesis
    using start_timer_always_returns_id_1 [of "JSFun 4" 50 "JSBool True" timerEngine]
      start_timer_always_returns_id_1 [of "JSFun 4" 50 "JSBool True"
        "timerEngine\<lparr> timers := timers timerEngine @ [None] \<rparr>"]
    by (simp add: t)
qed

text \<open>
  C5 does not hold of the code for ids outside the table. \<open>esWbStopTimer\<close> indexes
  \<open>engine.timers[n - 1]\<close> for every \<open>n\<close> other than 0, so a negative id and an id beyond
  the length of the table end in Go's index-out-of-range panic, not in a logged no-op.
\<close>
theorem stop_timer_outside_table_panics:
  assumes "n < 0 \<or> int (length (timers e)) < n"
  shows "esWbStopTimer [JSNum n] e = Inl IndexOutOfRange"
  using assms by (auto simp add: esWbStopTimer_def Let_def)

theorem stop_timer_outside_table_panics_witness:
  "esWbStopTimer [JSNum 5] NewRuleEngine = Inl IndexOutOfRange \<and>
   esWbStopTimer [JSNum (- 1)] NewRuleEngine = Inl IndexOutOfRange \<and>
   length (timers timerEngine) = 1 \<and>
   esWbStopTimer [JSNum 2] timerEngine = Inl IndexOutOfRange"
proof -
  have t: "timers timerEngine = [Some \<lparr> periodic = False, duration = 100 \<rparr>]"
    by (simp add: engine_defs sample_defs Let_def)
  have n: "timers NewRuleEngine = []"
    by (simp add: NewRuleEngine_def)
  show ?thesis
    using stop_timer_outside_table_panics [of 5 NewRuleEngine]
      stop_timer_outside_table_panics [of "- 1" NewRuleEngine]
      stop_timer_outside_table_panics [of 2 timerEngine]
    by (simp add: t n)
qed

text \<open>
  The part of C5 the code does: id 0, and an id inside the table whose slot is free,
  are logged and change nothing else.
\<close>
lemma stop_timer_zero_or_free_slot:
  assumes "n = 0 \<or> (0 < n \<and> n \<le> int (length (timers e)) \<and> timers e ! nat (n - 1) = None)"
  shows "\<exists>msg. esWbStopTimer [JSNum n] e = Inr (Ret0, e\<lparr> errorLog := errorLog e @ [msg] \<rparr>)"
  using assms by (auto simp add: esWbStopTimer_def logError_def Let_def)

section \<open>The condition protector of lib.js\<close>

text \<open>
  C8. \<open>wrapConditionFunc\<close> runs the user condition in the state whose counter is one
  more than before, and whatever the condition does (returns, throws the
  incomplete-cell error, throws anything else) the counter after the wrapper is one
  less than the condition left it: for a condition that leaves the counter as it
  found it, the wrapper does too. A normal result is converted, the incomplete-cell
  error becomes \<open>incompleteValue\<close>, any other error propagates. Reading an incomplete
  cell while the counter is positive throws the incomplete-cell error; so a wrapped
  \<open>when\<close> or \<open>asSoonAs\<close> that reads an incomplete cell returns false.
\<close>
theorem condition_protector:
  "fst (wrapConditionFunc f iv s) =
     (case fst (f (s\<lparr> requireCompleteCells := requireCompleteCells s + 1 \<rparr>)) of
        Normal v \<Rightarrow> Normal (if typeofBoolean iv then JSBool (ToBoolean v) else v)
      | Throw (IncompleteCellCaught cn) \<Rightarrow> Normal iv
      | Throw (OtherError x) \<Rightarrow> Throw (OtherError x)) \<and>
   requireCompleteCells (snd (wrapConditionFunc f iv s)) =
     requireCompleteCells (snd (f (s\<lparr> requireCompleteCells := requireCompleteCells s + 1 \<rparr>))) - 1 \<and>
   ((\<forall>t. requireCompleteCells (snd (f t)) = requireCompleteCells t) \<longrightarrow>
      requireCompleteCells (snd (wrapConditionFunc f iv s)) = requireCompleteCells s) \<and>
   (0 < requireCompleteCells t \<and> \<not> IsComplete m (dev, nm) \<longrightarrow>
      devGet m dev nm t = (Throw (IncompleteCellCaught nm), t)) \<and>
   (0 \<le> requireCompleteCells s \<and> \<not> IsComplete m (dev, nm) \<longrightarrow>
      wrapWhen (devGet m dev nm) s = (Normal (JSBool False), s))"
proof -
  obtain r s2 where run: "f (s\<lparr> requireCompleteCells := requireCompleteCells s + 1 \<rparr>) = (r, s2)"
    by (cases "f (s\<lparr> requireCompleteCells := requireCompleteCells s + 1 \<rparr>)")
  have res: "fst (wrapConditionFunc f iv s) =
     (case r of
        Normal v \<Rightarrow> Normal (if typeofBoolean iv then JSBool (ToBoolean v) else v)
      | Throw (IncompleteCellCaught cn) \<Rightarrow> Normal iv
      | Throw (OtherError x) \<Rightarrow> Throw (OtherError x))"
    by (simp add: wrapConditionFunc_def run Let_def split: completion.splits JsError.splits)
  have cnt: "requireCompleteCells (snd (wrapConditionFunc f iv s)) = requireCompleteCells s2 - 1"
    by (simp add: wrapConditionFunc_def run Let_def)
  have bal: "(\<forall>t. requireCompleteCells (snd (f t)) = requireCompleteCells t) \<longrightarrow>
      requireCompleteCells (snd (wrapConditionFunc f iv s)) = requireCompleteCells s"
  proof
    assume "\<forall>t. requireCompleteCells (snd (f t)) = requireCompleteCells t"
    then have "requireCompleteCells (snd (f (s\<lparr> requireCompleteCells := requireCompleteCells s + 1 \<rparr>))) =
        requireCompleteCells (s\<lparr> requireCompleteCells := requireCompleteCells s + 1 \<rparr>)"
      by blast
    then have "requireCompleteCells s2 = requireCompleteCells s + 1"
      by (simp add: run)
    then show "requireCompleteCells (snd (wrapConditionFunc f iv s)) = requireCompleteCells s"
      by (simp add: cnt)
  qed
  have rd: "0 < requireCompleteCells t \<and> \<not> IsComplete m (dev, nm) \<longrightarrow>
      devGet m dev nm t = (Throw (IncompleteCellCaught nm), t)"
    by (simp add: devGet_def)
  have wr: "0 \<le> requireCompleteCells s \<and> \<not> IsComplete m (dev, nm) \<longrightarrow>
      wrapWhen (devGet m dev nm) s = (Normal (JSBool False), s)"
    by (simp add: wrapWhen_def wrapConditionFunc_def devGet_def Let_def)
  show ?thesis
    using res cnt bal rd wr by (simp add: run)
qed

theorem condition_protector_witness:
  "\<not> IsComplete sampleModel (''Weather'', ''Temp2'') \<and>
   readTemp2 \<lparr> requireCompleteCells = 0 \<rparr> = (Normal (JSNum 18), \<lparr> requireCompleteCells = 0 \<rparr>) \<and>
   readTemp2 \<lparr> requireCompleteCells = 1 \<rparr> =
     (Throw (IncompleteCellCaught ''Temp2''), \<lparr> requireCompleteCells = 1 \<rparr>) \<and>
   wrapWhen readTemp2 \<lparr> requireCompleteCells = 0 \<rparr> =
     (Normal (JSBool False), \<lparr> requireCompleteCells = 0 \<rparr>) \<and>
   fst (wrapConditionFunc failingCond (JSBool False) \<lparr> requireCompleteCells = 0 \<rparr>) =
     Throw (OtherError ''boom'') \<and>
   requireCompleteCells
     (snd (wrapConditionFunc failingCond (JSBool False) \<lparr> requireCompleteCells = 0 \<rparr>)) = 0"
proof -
  have inc: "\<not> IsComplete sampleModel (''Weather'', ''Temp2'')"
    by (simp add: sampleModel_def)
  have r0: "readTemp2 \<lparr> requireCompleteCells = 0 \<rparr> =
      (Normal (JSNum 18), \<lparr> requireCompleteCells = 0 \<rparr>)"
    by (simp add: readTemp2_def devGet_def sampleModel_def)
  show ?thesis
    using condition_protector [of readTemp2 "JSBool False" "\<lparr> requireCompleteCells = 0 \<rparr>"
        "\<lparr> requireCompleteCells = 1 \<rparr>" sampleModel "''Weather''" "''Temp2''"]
      condition_protector [of failingCond "JSBool False" "\<lparr> requireCompleteCells = 0 \<rparr>"
        "\<lparr> requireCompleteCells = 1 \<rparr>" sampleModel "''Weather''" "''Temp2''"]
      inc r0
    by (simp add: readTemp2_def failingCond_def)
qed

section \<open>Defining and redefining rules\<close>

lemma storeCells_frame:
  "storeCells rule names e = (r, e') \<Longrightarrow>
     \<exists>cs mp. e' = e\<lparr> cellToRuleMap := mp,
                      heap := (heap e)(rule := (heap e rule)\<lparr> onCellChange := cs \<rparr>) \<rparr>"
proof (induction names arbitrary: e)
  case Nil
  then have "e' = e" by simp
  then have "e' = e\<lparr> cellToRuleMap := cellToRuleMap e,
      heap := (heap e)(rule := (heap e rule)\<lparr> onCellChange := onCellChange (heap e rule) \<rparr>) \<rparr>"
    by simp
  then show ?case by blast
next
  case (Cons fullName rest)
  show ?case
  proof (cases "length (SplitN2 fullName) \<noteq> 2")
    case True
    with Cons.prems have "e' = e" by (simp add: Let_def)
    then have "e' = e\<lparr> cellToRuleMap := cellToRuleMap e,
        heap := (heap e)(rule := (heap e rule)\<lparr> onCellChange := onCellChange (heap e rule) \<rparr>) \<rparr>"
      by simp
    then show ?thesis by blast
  next
    case False
    define cl where "cl = getCell (SplitN2 fullName ! 0) (SplitN2 fullName ! 1)"
    define e2 where "e2 = storeRuleCell rule cl (setRule rule
        ((heap e rule)\<lparr> onCellChange := onCellChange (heap e rule) @ [cl] \<rparr>) e)"
    from False Cons.prems have "storeCells rule rest e2 = (r, e')"
      by (simp add: Let_def e2_def cl_def)
    from Cons.IH [OF this] obtain cs mp where
      "e' = e2\<lparr> cellToRuleMap := mp,
                 heap := (heap e2)(rule := (heap e2 rule)\<lparr> onCellChange := cs \<rparr>) \<rparr>"
      by blast
    then have "e' = e\<lparr> cellToRuleMap := mp,
        heap := (heap e)(rule := (heap e rule)\<lparr> onCellChange := cs \<rparr>) \<rparr>"
      by (simp add: e2_def storeRuleCell_def setRule_def Let_def)
    then show ?thesis by blast
  qed
qed

lemma newRule_frame:
  assumes "newRule nm def e = (r, e1)"
  shows "e1 = e\<lparr> stash := stash e1, callbackIndex := callbackIndex e1,
           cellToRuleMap := cellToRuleMap e1,
           heap := (heap e)(nextRule e := heap e1 (nextRule e)),
           nextRule := Suc (nextRule e) \<rparr>"
proof (cases "HasPropString def ''then''")
  case False
  with assms show ?thesis
    by (clarsimp simp add: newRule_def setRule_def Let_def)
next
  case hasThen: True
  show ?thesis
  proof (cases "HasPropString def ''when''")
    case True
    with assms hasThen show ?thesis
      by (clarsimp simp add: newRule_def storeCallback_def setRule_def Let_def
          split: if_splits)
  next
    case noWhen: False
    show ?thesis
    proof (cases "HasPropString def ''asSoonAs''")
      case True
      with assms hasThen noWhen show ?thesis
        by (clarsimp simp add: newRule_def storeCallback_def setRule_def Let_def
            split: if_splits)
    next
      case noAsSoonAs: False
      show ?thesis
      proof (cases "HasPropString def ''onCellChange''")
        case False
        with assms hasThen noWhen noAsSoonAs show ?thesis
          by (clarsimp simp add: newRule_def storeCallback_def setRule_def Let_def)
      next
        case True
        with assms hasThen noWhen noAsSoonAs show ?thesis
          by (clarsimp simp add: newRule_def storeCallback_def setRule_def Let_def
              simp del: storeCells.simps
              split: if_splits prod.splits option.splits dest!: storeCells_frame)
      qed
    qed
  qed
qed

lemma newRule_fields:
  assumes "newRule nm def e = (r, e1)"
  shows "ruleMap e1 = ruleMap e" and "ruleList e1 = ruleList e"
    and "rulesWithoutCells e1 = rulesWithoutCells e" and "timers e1 = timers e"
    and "calls e1 = calls e" and "errorLog e1 = errorLog e" and "notedCells e1 = notedCells e"
    and "nextRule e1 = Suc (nextRule e)"
    and "p \<noteq> nextRule e \<Longrightarrow> heap e1 p = heap e p"
proof -
  note fr = newRule_frame [OF assms]
  show "ruleMap e1 = ruleMap e" by (subst fr) simp
  show "ruleList e1 = ruleList e" by (subst fr) simp
  show "rulesWithoutCells e1 = rulesWithoutCells e" by (subst fr) simp
  show "timers e1 = timers e" by (subst fr) simp
  show "calls e1 = calls e" by (subst fr) simp
  show "errorLog e1 = errorLog e" by (subst fr) simp
  show "notedCells e1 = notedCells e" by (subst fr) simp
  show "nextRule e1 = Suc (nextRule e)" by (subst fr) simp
  show "p \<noteq> nextRule e \<Longrightarrow> heap e1 p = heap e p" by (subst fr) simp
qed

lemma newRule_Inr:
  assumes "newRule nm def e = (Inr rule, e1)"
  shows "rule = nextRule e \<and> firstRun (heap e1 rule) \<and> \<not> shouldCheck (heap e1 rule) \<and>
         oldCellValue (heap e1 rule) = None \<and> ruleType (heap e1 rule) \<noteq> RULE_TYPE_NONE"
proof (cases "HasPropString def ''then''")
  case False
  with assms show ?thesis
    by (clarsimp simp add: newRule_def setRule_def Let_def)
next
  case hasThen: True
  show ?thesis
  proof (cases "HasPropString def ''when''")
    case True
    with assms hasThen rule_types_distinct show ?thesis
      by (clarsimp simp add: newRule_def storeCallback_def setRule_def Let_def
          split: if_splits)
  next
    case noWhen: False
    show ?thesis
    proof (cases "HasPropString def ''asSoonAs''")
      case True
      with assms hasThen noWhen rule_types_distinct show ?thesis
        by (clarsimp simp add: newRule_def storeCallback_def setRule_def Let_def
            split: if_splits)
    next
      case noAsSoonAs: False
      show ?thesis
      proof (cases "HasPropString def ''onCellChange''")
        case False
        with assms hasThen noWhen noAsSoonAs show ?thesis
          by (clarsimp simp add: newRule_def storeCallback_def setRule_def Let_def)
      next
        case True
        with assms hasThen noWhen noAsSoonAs rule_types_distinct show ?thesis
          by (clarsimp simp add: newRule_def storeCallback_def setRule_def Let_def
              simp del: storeCells.simps
              split: if_splits prod.splits option.splits dest!: storeCells_frame)
      qed
    qed
  qed
qed

lemma Destroy_fields:
  "ruleList (Destroy p e) = ruleList e"
  "ruleMap (Destroy p e) = ruleMap e"
  "cellToRuleMap (Destroy p e) = cellToRuleMap e"
  "rulesWithoutCells (Destroy p e) = rulesWithoutCells e"
  "heap (Destroy p e) = (heap e)(p := (heap e p)\<lparr> ruleType := RULE_TYPE_NONE \<rparr>)"
  by (simp_all add: Destroy_def removeCallback_def setRule_def Let_def)

lemma Destroy_releases:
  "cond (heap e p) \<noteq> 0 \<Longrightarrow> stash (Destroy p e) ''ruleFuncs'' (CbKey (cond (heap e p))) = None"
  "then' (heap e p) \<noteq> 0 \<Longrightarrow> stash (Destroy p e) ''ruleFuncs'' (CbKey (then' (heap e p))) = None"
  by (simp_all add: Destroy_def removeCallback_def setRule_def Let_def)

lemma esWbDefineRule_Ret0:
  assumes "esWbDefineRule [JSStr nm, def] e = (Ret0, e')"
  shows "\<exists>e1. newRule nm def e = (Inr (nextRule e), e1) \<and>
           e' = (case ruleMap e nm of
                   Some oldRule \<Rightarrow> Destroy oldRule e1
                 | None \<Rightarrow> e1\<lparr> ruleList := ruleList e @ [nm] \<rparr>)
                \<lparr> ruleMap := (ruleMap e)(nm \<mapsto> nextRule e) \<rparr>"
proof -
  obtain r e1 where nr: "newRule nm def e = (r, e1)"
    by (cases "newRule nm def e")
  from assms nr obtain rule where r: "r = Inr rule"
    by (cases r) (auto simp add: esWbDefineRule_def Let_def split: if_splits)
  have rule: "rule = nextRule e"
    using newRule_Inr [of nm "def" e rule e1] nr r by simp
  have rm: "ruleMap e1 = ruleMap e" and rl: "ruleList e1 = ruleList e"
    using newRule_fields [OF nr] by simp_all
  have "e' = (case ruleMap e1 nm of
                   Some oldRule \<Rightarrow> Destroy oldRule e1
                 | None \<Rightarrow> e1\<lparr> ruleList := ruleList e1 @ [nm] \<rparr>)
                \<lparr> ruleMap := (ruleMap e1)(nm \<mapsto> nextRule e) \<rparr>"
    using assms nr r rule
    by (auto simp add: esWbDefineRule_def Let_def Destroy_fields split: if_splits option.splits)
  then show ?thesis
    using nr r rule rm rl by (cases "ruleMap e nm") simp_all
qed

text \<open>
  C6. A \<open>defineRule\<close> call that is accepted (it returns 0) for a name that already has a
  rule -- an allocated object, so other than the one \<open>newRule\<close> allocates -- sets the
  old rule's \<open>ruleType\<close> to \<open>RULE_TYPE_NONE\<close> and removes its condition and body handles
  from the callback list (a handle is a nonzero \<open>esCallback\<close>; an on-change rule has no
  condition handle); \<open>ruleList\<close> is unchanged and the name now maps to the new rule,
  which therefore takes the old one's place in the iteration; the new rule has
  \<open>firstRun\<close> set and is not destroyed. For a name without a rule the name is appended
  to \<open>ruleList\<close>.
\<close>
theorem define_rule_replaces_in_place:
  assumes ok: "esWbDefineRule [JSStr nm, def] e = (Ret0, e')"
  shows "(\<forall>old. ruleMap e nm = Some old \<and> old < nextRule e \<longrightarrow>
            ruleType (heap e' old) = RULE_TYPE_NONE \<and>
            (cond (heap e old) \<noteq> NO_CALLBACK \<longrightarrow>
               stash e' ''ruleFuncs'' (CbKey (cond (heap e old))) = None) \<and>
            (then' (heap e old) \<noteq> NO_CALLBACK \<longrightarrow>
               stash e' ''ruleFuncs'' (CbKey (then' (heap e old))) = None) \<and>
            ruleList e' = ruleList e) \<and>
         (ruleMap e nm = None \<longrightarrow> ruleList e' = ruleList e @ [nm]) \<and>
         ruleMap e' = (ruleMap e)(nm \<mapsto> nextRule e) \<and>
         firstRun (heap e' (nextRule e)) \<and>
         ((\<forall>old. ruleMap e nm = Some old \<longrightarrow> old < nextRule e) \<longrightarrow>
            ruleType (heap e' (nextRule e)) \<noteq> RULE_TYPE_NONE)"
proof -
  from esWbDefineRule_Ret0 [OF ok] obtain e1 where
    nr: "newRule nm def e = (Inr (nextRule e), e1)" and
    e': "e' = (case ruleMap e nm of
                 Some oldRule \<Rightarrow> Destroy oldRule e1
               | None \<Rightarrow> e1\<lparr> ruleList := ruleList e @ [nm] \<rparr>)
              \<lparr> ruleMap := (ruleMap e)(nm \<mapsto> nextRule e) \<rparr>"
    by blast
  note new = newRule_Inr [OF nr]
  have rl: "ruleList e1 = ruleList e"
    using newRule_fields [OF nr] by simp
  have same: "\<And>p. p \<noteq> nextRule e \<Longrightarrow> heap e1 p = heap e p"
    using newRule_fields(9) [OF nr] by simp
  have redefine: "ruleType (heap e' old) = RULE_TYPE_NONE \<and>
            (cond (heap e old) \<noteq> NO_CALLBACK \<longrightarrow>
               stash e' ''ruleFuncs'' (CbKey (cond (heap e old))) = None) \<and>
            (then' (heap e old) \<noteq> NO_CALLBACK \<longrightarrow>
               stash e' ''ruleFuncs'' (CbKey (then' (heap e old))) = None) \<and>
            ruleList e' = ruleList e"
    if old: "ruleMap e nm = Some old" "old < nextRule e" for old
  proof -
    have ho: "heap e1 old = heap e old"
      using same [of old] old by simp
    have e'': "e' = (Destroy old e1)\<lparr> ruleMap := (ruleMap e)(nm \<mapsto> nextRule e) \<rparr>"
      using e' old by simp
    show ?thesis
      using Destroy_releases [of e1 old] ho
      by (simp add: e'' Destroy_fields rl NO_CALLBACK_def)
  qed
  have fresh: "ruleList e' = ruleList e @ [nm]" if "ruleMap e nm = None"
    using that e' by simp
  have rm: "ruleMap e' = (ruleMap e)(nm \<mapsto> nextRule e)"
    using e' by simp
  have fr: "firstRun (heap e' (nextRule e))"
    using new e' by (cases "ruleMap e nm") (auto simp add: Destroy_fields)
  have alive: "ruleType (heap e' (nextRule e)) \<noteq> RULE_TYPE_NONE"
    if "\<forall>old. ruleMap e nm = Some old \<longrightarrow> old < nextRule e"
    using new e' that by (cases "ruleMap e nm") (auto simp add: Destroy_fields)
  show ?thesis
    using redefine fresh rm fr alive by blast
qed

lemma threeRules_facts:
  "ruleList threeRules = [''A'', ''B'', ''C'']"
  "ruleMap threeRules ''B'' = Some (Suc 0)"
  "ruleMap threeRules ''D'' = None"
  "nextRule threeRules = 3"
  "cond (heap threeRules (Suc 0)) = 4"
  "then' (heap threeRules (Suc 0)) = 3"
  by (simp_all add: engine_defs threeRules_def Let_def)

lemma threeRules_redefine:
  "fst (esWbDefineRule defineB threeRules) = Ret0"
  "fst (esWbDefineRule defineD threeRules) = Ret0"
  by (simp_all add: engine_defs threeRules_def defineB_def defineD_def Let_def)

text \<open>
  Rules \<open>A\<close>, \<open>B\<close>, \<open>C\<close> are defined in this order and \<open>B\<close> is defined again: the order
  is still \<open>A\<close>, \<open>B\<close>, \<open>C\<close>, the old \<open>B\<close> is destroyed and its handles 4 and 3 are gone,
  the new \<open>B\<close> starts with \<open>firstRun\<close>. Defining \<open>D\<close> appends it.
\<close>
theorem define_rule_replaces_in_place_witness:
  "ruleList threeRules = [''A'', ''B'', ''C''] \<and>
   ruleMap threeRules ''B'' = Some 1 \<and> 1 < nextRule threeRules \<and>
   cond (heap threeRules 1) = 4 \<and> then' (heap threeRules 1) = 3 \<and>
   fst (esWbDefineRule defineB threeRules) = Ret0 \<and>
   ruleType (heap (snd (esWbDefineRule defineB threeRules)) 1) = RULE_TYPE_NONE \<and>
   stash (snd (esWbDefineRule defineB threeRules)) ''ruleFuncs'' (CbKey 4) = None \<and>
   stash (snd (esWbDefineRule defineB threeRules)) ''ruleFuncs'' (CbKey 3) = None \<and>
   ruleList (snd (esWbDefineRule defineB threeRules)) = [''A'', ''B'', ''C''] \<and>
   ruleMap (snd (esWbDefineRule defineB threeRules)) ''B'' = Some 3 \<and>
   firstRun (heap (snd (esWbDefineRule defineB threeRules)) 3) \<and>
   ruleType (heap (snd (esWbDefineRule defineB threeRules)) 3) \<noteq> RULE_TYPE_NONE \<and>
   ruleMap threeRules ''D'' = None \<and>
   ruleList (snd (esWbDefineRule defineD threeRules)) = [''A'', ''B'', ''C'', ''D''] \<and>
   firstRun (heap (snd (esWbDefineRule defineD threeRules)) 3)"
proof -
  have okB: "esWbDefineRule [JSStr ''B'', JSObj [(''when'', JSFun 7), (''then'', JSFun 8)]]
      threeRules = (Ret0, snd (esWbDefineRule defineB threeRules))"
    using threeRules_redefine(1) by (simp add: defineB_def prod_eq_iff)
  have okD: "esWbDefineRule [JSStr ''D'', JSObj [(''when'', JSFun 9), (''then'', JSFun 10)]]
      threeRules = (Ret0, snd (esWbDefineRule defineD threeRules))"
    using threeRules_redefine(2) by (simp add: defineD_def prod_eq_iff)
  show ?thesis
    using define_rule_replaces_in_place [OF okB] define_rule_replaces_in_place [OF okD]
      threeRules_redefine
    by (simp add: threeRules_facts NO_CALLBACK_def)
qed

section \<open>On-change rules\<close>

lemma markRules_closed:
  "markRules m c e =
     e\<lparr> heap := (\<lambda>p. if (IsComplete m c \<and> p \<in> set (cellRules e c)) \<or>
                           p \<in> set (rulesWithoutCells e)
                        then (heap e p)\<lparr> shouldCheck := True \<rparr> else heap e p) \<rparr>"
proof -
  have heaps: "heap (markRules m c e) =
      (\<lambda>p. if (IsComplete m c \<and> p \<in> set (cellRules e c)) \<or> p \<in> set (rulesWithoutCells e)
            then (heap e p)\<lparr> shouldCheck := True \<rparr> else heap e p)"
    by (rule ext)
      (simp add: markRules_def cellRules_def fold_ShouldCheck fold_mark_heap Let_def
        split: option.splits)
  have "markRules m c e = e\<lparr> heap := heap (markRules m c e) \<rparr>"
    by (simp add: markRules_def fold_ShouldCheck Let_def split: option.splits)
  then show ?thesis
    by (simp add: heaps)
qed

lemma cellRules_storeRuleCell:
  "cellRules (storeRuleCell rule cl e) c =
     (if c = cl then cellRules e c @ [rule] else cellRules e c)"
  by (simp add: cellRules_def storeRuleCell_def Let_def)





lemma changeEngine_facts:
  "calls changeEngine = []"
  "cellRules changeEngine (''Weather'', ''Temp1'') = [0]"
  by (simp_all add: engine_defs sample_defs Let_def)


text \<open>
  The statement is about single calls of \<open>Check\<close>. A forced \<open>Check\<close> between the
  marking and the \<open>Check\<close> for the cell, which is what a \<open>runRules()\<close> called by the body
  of an earlier rule amounts to, clears the flag, and the watched, complete cell then
  does not fire the rule.
\<close>
lemma forced_check_takes_the_mark_away:
  "IsComplete sampleModel (''Weather'', ''Temp1'') \<and>
   onCellChange (heap changeEngine 0) = [(''Weather'', ''Temp1'')] \<and>
   callsAfter (andThen
       (Check hostTrue sampleModel None 0
          (markRules sampleModel (''Weather'', ''Temp1'') changeEngine))
       (Check hostTrue sampleModel (Some (''Weather'', ''Temp1'')) 0)) = Some []"
  by (simp add: engine_defs sample_defs Let_def)


section \<open>The dependency indexes only grow\<close>

lemma entriesKept_refl: "entriesKept e e"
  by (simp add: entriesKept_def)

lemma entriesKept_trans: "entriesKept e1 e2 \<Longrightarrow> entriesKept e2 e3 \<Longrightarrow> entriesKept e1 e3"
  unfolding entriesKept_def by (meson prefix_order.trans subset_trans)

lemma entriesKept_same:
  "cellToRuleMap e' = cellToRuleMap e \<Longrightarrow> rulesWithoutCells e' = rulesWithoutCells e \<Longrightarrow>
   entriesKept e e'"
  by (simp add: entriesKept_def cellRules_def)

lemma entriesKept_storeRuleCell: "entriesKept e (storeRuleCell rule cl e)"
  by (simp add: entriesKept_def cellRules_storeRuleCell) (simp add: storeRuleCell_def Let_def)

lemma entriesKept_fold_storeRuleCell: "entriesKept e (fold (storeRuleCell rule) cs e)"
proof (induction cs arbitrary: e)
  case Nil
  show ?case by (simp add: entriesKept_refl)
next
  case (Cons c cs)
  have "entriesKept e (storeRuleCell rule c e)"
    by (rule entriesKept_storeRuleCell)
  moreover have "entriesKept (storeRuleCell rule c e) (fold (storeRuleCell rule) cs (storeRuleCell rule c e))"
    by (rule Cons)
  ultimately show ?case
    using entriesKept_trans by simp
qed

lemma entriesKept_notedCells: "entriesKept e (e'\<lparr> notedCells := x \<rparr>) = entriesKept e e'"
  by (simp add: entriesKept_def cellRules_def)

lemma entriesKept_storeRuleTrackedCells: "entriesKept e (storeRuleTrackedCells rule e)"
proof (cases "length (case notedCells e of None \<Rightarrow> [] | Some cs \<Rightarrow> cs) > 0")
  case True
  then show ?thesis
    using entriesKept_fold_storeRuleCell [of e rule "case notedCells e of None \<Rightarrow> [] | Some cs \<Rightarrow> cs"]
    by (simp add: storeRuleTrackedCells_def Let_def entriesKept_notedCells)
next
  case False
  then show ?thesis
    by (auto simp add: storeRuleTrackedCells_def Let_def entriesKept_def cellRules_def)
qed

lemma index_invokeCallback:
  "cellToRuleMap (snd (invokeCallback host pn k args e)) = cellToRuleMap e"
  "rulesWithoutCells (snd (invokeCallback host pn k args e)) = rulesWithoutCells e"
  by (simp_all add: invokeCallback_def Let_def logError_def fold_trackCell
      split: option.splits JSVal.splits JsRun.splits JsResult.splits)

lemma entriesKept_invokeCond: "entriesKept e (snd (invokeCond host rule e))"
proof -
  let ?e2 = "snd (invokeCallback host ''ruleFuncs'' (CbKey (cond (heap e rule))) None
      (startTrackingCells e))"
  have "entriesKept e ?e2"
    by (rule entriesKept_same) (simp_all add: index_invokeCallback startTrackingCells_def)
  moreover have "entriesKept ?e2 (storeRuleTrackedCells rule ?e2)"
    by (rule entriesKept_storeRuleTrackedCells)
  ultimately have "entriesKept e (storeRuleTrackedCells rule ?e2)"
    by (rule entriesKept_trans)
  then show ?thesis
    by (simp add: invokeCond_def Let_def split_beta startTrackingCells_def)
qed

lemma entriesKept_heap: "entriesKept e (e'\<lparr> heap := h \<rparr>) = entriesKept e e'"
  by (simp add: entriesKept_def cellRules_def)

lemma entriesKept_checkSwitch: "entriesKept e (snd (snd (checkSwitch host m c rule e)))"
  using entriesKept_invokeCond [of e host rule]
  by (auto simp add: checkSwitch_def Let_def split_beta setRule_def entriesKept_heap
      entriesKept_refl split: option.splits)

lemma entriesKept_Check:
  assumes "Check host m c rule e = Inr e'"
  shows "entriesKept e e'"
proof (cases "c \<noteq> None \<and> \<not> shouldCheck (heap e rule)")
  case True
  with assms show ?thesis
    by (simp add: Check_def entriesKept_refl)
next
  case False
  let ?e1 = "snd (snd (checkSwitch host m c rule e))"
  let ?e2 = "setRule rule ((heap ?e1 rule)\<lparr> firstRun := False, shouldCheck := False \<rparr>) ?e1"
  have k2: "entriesKept e ?e2"
    using entriesKept_checkSwitch [of e host m c rule]
    by (simp add: setRule_def entriesKept_heap)
  have k3: "entriesKept ?e2 (snd (invokeCallback host pn k args ?e2))" for pn k args
    by (rule entriesKept_same) (simp_all add: index_invokeCallback)
  from assms False have "e' = ?e2 \<or>
      e' = snd (invokeCallback host ''ruleFuncs'' (CbKey (then' (heap ?e2 rule)))
                 (fst (snd (checkSwitch host m c rule e))) ?e2)"
    by (auto simp add: Check_def Let_def split_beta split: if_splits)
  then show ?thesis
    using k2 k3 entriesKept_trans by blast
qed

lemma entriesKept_checkRules:
  "checkRules host m c names e = Inr e' \<Longrightarrow> entriesKept e e'"
proof (induction names arbitrary: e)
  case Nil
  then show ?case by (simp add: entriesKept_refl)
next
  case (Cons nm names)
  from Cons.prems obtain rule e1 where
    "Check host m c rule e = Inr e1" and "checkRules host m c names e1 = Inr e'"
    by (auto split: option.splits sum.splits)
  then show ?case
    using entriesKept_Check Cons.IH entriesKept_trans by blast
qed

lemma entriesKept_RunRules:
  assumes "RunRules host m cs e = Inr e'"
  shows "entriesKept e e'"
proof (cases cs)
  case None
  with assms show ?thesis
    by (simp add: RunRules_def entriesKept_checkRules)
next
  case (Some spec)
  let ?e1 = "markRules m (getCell (DevName spec) (CellName spec)) e"
  have "entriesKept e ?e1"
    by (subst markRules_closed) (simp add: entriesKept_heap entriesKept_refl)
  moreover have "entriesKept ?e1 e'"
    using assms Some by (simp add: RunRules_def Let_def entriesKept_checkRules)
  ultimately show ?thesis
    by (rule entriesKept_trans)
qed

lemma entriesKept_storeCells:
  "storeCells rule names e = (r, e') \<Longrightarrow> entriesKept e e'"
proof (induction names arbitrary: e)
  case Nil
  then show ?case by (simp add: entriesKept_refl)
next
  case (Cons fullName rest)
  show ?case
  proof (cases "length (SplitN2 fullName) \<noteq> 2")
    case True
    with Cons.prems show ?thesis
      by (simp add: Let_def entriesKept_refl)
  next
    case False
    define cl where "cl = getCell (SplitN2 fullName ! 0) (SplitN2 fullName ! 1)"
    define e1 where "e1 = setRule rule
        ((heap e rule)\<lparr> onCellChange := onCellChange (heap e rule) @ [cl] \<rparr>) e"
    from False Cons.prems have run: "storeCells rule rest (storeRuleCell rule cl e1) = (r, e')"
      by (simp add: Let_def e1_def cl_def)
    have "entriesKept e e1"
      by (simp add: e1_def setRule_def entriesKept_heap entriesKept_refl)
    moreover have "entriesKept e1 (storeRuleCell rule cl e1)"
      by (rule entriesKept_storeRuleCell)
    moreover have "entriesKept (storeRuleCell rule cl e1) e'"
      using run by (rule Cons.IH)
    ultimately show ?thesis
      using entriesKept_trans by blast
  qed
qed

lemma entriesKept_left_frame:
  "entriesKept (e\<lparr> heap := h \<rparr>) e' = entriesKept e e'"
  "entriesKept (e\<lparr> nextRule := n \<rparr>) e' = entriesKept e e'"
  "entriesKept (e\<lparr> callbackIndex := ci \<rparr>) e' = entriesKept e e'"
  "entriesKept (e\<lparr> stash := st \<rparr>) e' = entriesKept e e'"
  by (simp_all add: entriesKept_def cellRules_def)

lemma entriesKept_right_frame:
  "entriesKept e (e'\<lparr> heap := h \<rparr>) = entriesKept e e'"
  "entriesKept e (e'\<lparr> nextRule := n \<rparr>) = entriesKept e e'"
  "entriesKept e (e'\<lparr> callbackIndex := ci \<rparr>) = entriesKept e e'"
  "entriesKept e (e'\<lparr> stash := st \<rparr>) = entriesKept e e'"
  by (simp_all add: entriesKept_def cellRules_def)

lemma entriesKept_newRule:
  assumes "newRule nm def e = (r, e1)"
  shows "entriesKept e e1"
proof (cases "HasPropString def ''then''")
  case False
  with assms show ?thesis
    by (clarsimp simp add: newRule_def setRule_def Let_def entriesKept_def cellRules_def)
next
  case hasThen: True
  show ?thesis
  proof (cases "HasPropString def ''when''")
    case True
    with assms hasThen show ?thesis
      by (clarsimp simp add: newRule_def storeCallback_def setRule_def Let_def
          entriesKept_def cellRules_def split: if_splits)
  next
    case noWhen: False
    show ?thesis
    proof (cases "HasPropString def ''asSoonAs''")
      case True
      with assms hasThen noWhen show ?thesis
        by (clarsimp simp add: newRule_def storeCallback_def setRule_def Let_def
            entriesKept_def cellRules_def split: if_splits)
    next
      case noAsSoonAs: False
      show ?thesis
      proof (cases "HasPropString def ''onCellChange''")
        case False
        with assms hasThen noWhen noAsSoonAs show ?thesis
          by (clarsimp simp add: newRule_def storeCallback_def setRule_def Let_def
              entriesKept_def cellRules_def)
      next
        case True
        with assms hasThen noWhen noAsSoonAs show ?thesis
          by (clarsimp simp add: newRule_def storeCallback_def setRule_def Let_def
              entriesKept_left_frame entriesKept_right_frame entriesKept_refl
              simp del: storeCells.simps
              split: if_splits prod.splits option.splits dest!: entriesKept_storeCells)
      qed
    qed
  qed
qed

lemma entriesKept_frame:
  "entriesKept e (logError msg e') = entriesKept e e'"
  "entriesKept e (e'\<lparr> ruleMap := rm \<rparr>) = entriesKept e e'"
  "entriesKept e (e'\<lparr> ruleList := rl \<rparr>) = entriesKept e e'"
  "entriesKept e (Destroy p e') = entriesKept e e'"
  by (simp_all add: entriesKept_def cellRules_def logError_def Destroy_fields)

lemma entriesKept_esWbDefineRule:
  assumes "esWbDefineRule args e = (r, e')"
  shows "entriesKept e e'"
proof -
  consider (bad) "e' = logError ''bad rule definition'' e"
    | (run) nv "def" where "args = [nv, def]" "IsString nv" "IsObject def"
    using assms by (auto simp add: esWbDefineRule_def split: list.splits if_splits)
  then show ?thesis
  proof cases
    case bad
    then show ?thesis by (simp add: entriesKept_frame entriesKept_refl)
  next
    case run
    obtain res e1 where nr: "newRule (GetString nv) def e = (res, e1)"
      by (cases "newRule (GetString nv) def e")
    have k1: "entriesKept e e1"
      using nr by (rule entriesKept_newRule)
    show ?thesis
      using assms run nr k1
      by (cases res; cases "ruleMap e1 (GetString nv)")
        (auto simp add: esWbDefineRule_def Let_def entriesKept_frame)
  qed
qed

lemma entriesKept_esWbStartTimer:
  assumes "esWbStartTimer args e = (r, e')"
  shows "entriesKept e e'"
proof -
  have "cellToRuleMap e' = cellToRuleMap e \<and> rulesWithoutCells e' = rulesWithoutCells e"
    using assms
    by (auto simp add: esWbStartTimer_def storeCallback_def Let_def split_beta
        split: list.splits if_splits)
  then show ?thesis
    by (simp add: entriesKept_same)
qed

lemma index_removeTimer:
  "removeTimer n e = Inr e' \<Longrightarrow>
   cellToRuleMap e' = cellToRuleMap e \<and> rulesWithoutCells e' = rulesWithoutCells e"
  by (auto simp add: removeTimer_def removeCallback_def Let_def split: if_splits)

lemma entriesKept_esWbStopTimer:
  assumes "esWbStopTimer args e = Inr (r, e')"
  shows "entriesKept e e'"
proof -
  have "cellToRuleMap e' = cellToRuleMap e \<and> rulesWithoutCells e' = rulesWithoutCells e"
    using assms
    by (auto simp add: esWbStopTimer_def logError_def Let_def
        split: list.splits if_splits option.splits sum.splits dest: index_removeTimer)
  then show ?thesis
    by (simp add: entriesKept_same)
qed

lemma entriesKept_fireTimer:
  assumes "fireTimer host n e = Inr e'"
  shows "entriesKept e e'"
proof -
  have "cellToRuleMap e' = cellToRuleMap e \<and> rulesWithoutCells e' = rulesWithoutCells e"
    using assms
    by (auto simp add: fireTimer_def logError_def Let_def index_invokeCallback
        split: if_splits option.splits dest!: index_removeTimer)
  then show ?thesis
    by (simp add: entriesKept_same)
qed

lemma entriesKept_engineStep: "engineStep e e' \<Longrightarrow> entriesKept e e'"
proof (induction rule: engineStep.induct)
  case (stepDefineRule args e r e')
  then show ?case by (rule entriesKept_esWbDefineRule)
next
  case (stepRunRules host m cs e e')
  then show ?case by (rule entriesKept_RunRules)
next
  case (stepCheck host m c rule e e')
  then show ?case by (rule entriesKept_Check)
next
  case (stepDestroy e rule)
  show ?case by (simp add: entriesKept_frame entriesKept_refl)
next
  case (stepStartTimer args e r e')
  then show ?case by (rule entriesKept_esWbStartTimer)
next
  case (stepStopTimer args e r e')
  then show ?case by (rule entriesKept_esWbStopTimer)
next
  case (stepFireTimer host n e e')
  then show ?case by (rule entriesKept_fireTimer)
qed

lemma entriesKept_run: "engineStep\<^sup>*\<^sup>* e e' \<Longrightarrow> entriesKept e e'"
proof (induction rule: rtranclp_induct)
  case base
  show ?case by (rule entriesKept_refl)
next
  case (step e1 e2)
  then show ?case
    using entriesKept_engineStep entriesKept_trans by blast
qed

text \<open>
  C9, as the code has it. Along every run of the engine the list of rules of each cell
  only grows at its end and \<open>rulesWithoutCells\<close> only gains members: no operation
  removes an entry. That includes \<open>Destroy\<close>: it removes the rule's condition and body
  handles from the callback list (a handle is a nonzero \<open>esCallback\<close>), sets the rule's
  \<open>ruleType\<close> to \<open>RULE_TYPE_NONE\<close> and changes nothing else of the rules, the registry
  or the two indexes, so the entries of a destroyed rule stay.
\<close>
theorem index_entries_are_never_removed:
  "(engineStep\<^sup>*\<^sup>* e e' \<longrightarrow>
      prefix (cellRules e c) (cellRules e' c) \<and>
      set (rulesWithoutCells e) \<subseteq> set (rulesWithoutCells e')) \<and>
   cellToRuleMap (Destroy rule e) = cellToRuleMap e \<and>
   rulesWithoutCells (Destroy rule e) = rulesWithoutCells e \<and>
   ruleType (heap (Destroy rule e) rule) = RULE_TYPE_NONE \<and>
   heap (Destroy rule e) = (heap e)(rule := (heap e rule)\<lparr> ruleType := RULE_TYPE_NONE \<rparr>) \<and>
   (cond (heap e rule) \<noteq> NO_CALLBACK \<longrightarrow>
      stash (Destroy rule e) ''ruleFuncs'' (CbKey (cond (heap e rule))) = None) \<and>
   (then' (heap e rule) \<noteq> NO_CALLBACK \<longrightarrow>
      stash (Destroy rule e) ''ruleFuncs'' (CbKey (then' (heap e rule))) = None) \<and>
   ruleList (Destroy rule e) = ruleList e \<and>
   ruleMap (Destroy rule e) = ruleMap e"
proof -
  have "engineStep\<^sup>*\<^sup>* e e' \<longrightarrow>
      prefix (cellRules e c) (cellRules e' c) \<and>
      set (rulesWithoutCells e) \<subseteq> set (rulesWithoutCells e')"
    using entriesKept_run [of e e'] unfolding entriesKept_def by blast
  then show ?thesis
    using Destroy_releases [of e rule]
    by (simp add: Destroy_fields NO_CALLBACK_def)
qed

lemma levelEngine_facts:
  "stash levelEngine ''ruleFuncs'' (CbKey 2) = Some (JSFun 1)"
  "stash levelEngine ''ruleFuncs'' (CbKey 1) = Some (JSFun 2)"
  by (simp_all add: engine_defs sample_defs Let_def)

theorem index_entries_are_never_removed_witness:
  "engineStep\<^sup>*\<^sup>* changeEngine (snd (esWbDefineRule defineTempChange changeEngine)) \<and>
   cellRules changeEngine (''Weather'', ''Temp1'') = [0] \<and>
   prefix [0] (cellRules (snd (esWbDefineRule defineTempChange changeEngine))
                 (''Weather'', ''Temp1'')) \<and>
   cellToRuleMap (Destroy 0 changeEngine) = cellToRuleMap changeEngine \<and>
   cond (heap levelEngine 0) = 2 \<and> then' (heap levelEngine 0) = 1 \<and>
   stash levelEngine ''ruleFuncs'' (CbKey 2) = Some (JSFun 1) \<and>
   stash levelEngine ''ruleFuncs'' (CbKey 1) = Some (JSFun 2) \<and>
   stash (Destroy 0 levelEngine) ''ruleFuncs'' (CbKey 2) = None \<and>
   stash (Destroy 0 levelEngine) ''ruleFuncs'' (CbKey 1) = None \<and>
   ruleType (heap (Destroy 0 levelEngine) 0) = RULE_TYPE_NONE \<and>
   ruleType (heap levelEngine 0) = RULE_TYPE_LEVEL_TRIGGERED"
proof -
  have "engineStep changeEngine (snd (esWbDefineRule defineTempChange changeEngine))"
    by (rule stepDefineRule [of defineTempChange changeEngine
          "fst (esWbDefineRule defineTempChange changeEngine)"]) simp
  then have run: "engineStep\<^sup>*\<^sup>* changeEngine (snd (esWbDefineRule defineTempChange changeEngine))"
    by (rule r_into_rtranclp)
  show ?thesis
    using index_entries_are_never_removed [of changeEngine
        "snd (esWbDefineRule defineTempChange changeEngine)" "(''Weather'', ''Temp1'')" 0]
      index_entries_are_never_removed [of levelEngine levelEngine "(''Weather'', ''Temp1'')" 0]
      run
    by (simp add: changeEngine_facts levelEngine_facts heap_levelEngine NO_CALLBACK_def)
qed

text \<open>
  C9 as stated fails in its second half. The on-change rule of \<open>changeEngine\<close> is
  listed under \<open>Weather/Temp1\<close>; after \<open>Destroy\<close> it is still listed there. Defining the
  rule a second time destroys the first one and the list holds both. A rule that went
  into \<open>rulesWithoutCells\<close> in a pass is still there after \<open>Destroy\<close>.
\<close>
theorem destroy_clears_index_counterexample:
  "ruleType (heap (Destroy 0 changeEngine) 0) = RULE_TYPE_NONE \<and>
   cellRules (Destroy 0 changeEngine) (''Weather'', ''Temp1'') = [0] \<and>
   ruleType (heap (snd (esWbDefineRule defineTempChange changeEngine)) 0) = RULE_TYPE_NONE \<and>
   cellRules (snd (esWbDefineRule defineTempChange changeEngine)) (''Weather'', ''Temp1'') = [0, 1] \<and>
   withoutCellsAfter (RunRules hostTrue sampleModel None levelEngine) = Some [0] \<and>
   map_option ruleType (ruleAfter (andThen (RunRules hostTrue sampleModel None levelEngine)
       (Inr \<circ> Destroy 0)) 0) = Some RULE_TYPE_NONE \<and>
   withoutCellsAfter (andThen (RunRules hostTrue sampleModel None levelEngine)
       (Inr \<circ> Destroy 0)) = Some [0]"
  by (simp add: engine_defs sample_defs withoutCellsAfter_def defineTempChange_def Let_def)

section \<open>Rules in the registry are allocated objects\<close>

lemma registry_invokeCallback:
  "ruleMap (snd (invokeCallback host pn k args e)) = ruleMap e"
  "nextRule (snd (invokeCallback host pn k args e)) = nextRule e"
  by (simp_all add: invokeCallback_def Let_def logError_def fold_trackCell
      split: option.splits JSVal.splits JsRun.splits JsResult.splits)

lemma registry_storeRuleTrackedCells:
  "ruleMap (storeRuleTrackedCells rule e) = ruleMap e"
  "nextRule (storeRuleTrackedCells rule e) = nextRule e"
  by (simp_all add: storeRuleTrackedCells_def Let_def fold_storeRuleCell)

lemma registry_invokeCond:
  "ruleMap (snd (invokeCond host rule e)) = ruleMap e"
  "nextRule (snd (invokeCond host rule e)) = nextRule e"
  by (simp_all add: invokeCond_def Let_def split_beta startTrackingCells_def
      registry_invokeCallback registry_storeRuleTrackedCells)

lemma registry_checkSwitch:
  "ruleMap (snd (snd (checkSwitch host m c rule e))) = ruleMap e"
  "nextRule (snd (snd (checkSwitch host m c rule e))) = nextRule e"
  by (simp_all add: checkSwitch_def Let_def split_beta setRule_def registry_invokeCond
      split: option.splits)

lemma registry_Check:
  assumes "Check host m c rule e = Inr e'"
  shows "ruleMap e' = ruleMap e \<and> nextRule e' = nextRule e"
  using assms
  by (auto simp add: Check_def Let_def split_beta setRule_def registry_checkSwitch
      registry_invokeCallback split: if_splits)

lemma registry_checkRules:
  "checkRules host m c names e = Inr e' \<Longrightarrow> ruleMap e' = ruleMap e \<and> nextRule e' = nextRule e"
proof (induction names arbitrary: e)
  case Nil
  then show ?case by simp
next
  case (Cons nm names)
  from Cons.prems obtain rule e1 where
    "Check host m c rule e = Inr e1" and "checkRules host m c names e1 = Inr e'"
    by (auto split: option.splits sum.splits)
  then show ?case
    using registry_Check [of host m c rule e e1] Cons.IH [of e1] by simp
qed

lemma registry_RunRules:
  assumes "RunRules host m cs e = Inr e'"
  shows "ruleMap e' = ruleMap e \<and> nextRule e' = nextRule e"
proof (cases cs)
  case None
  with assms show ?thesis
    by (simp add: RunRules_def registry_checkRules)
next
  case (Some spec)
  let ?e1 = "markRules m (getCell (DevName spec) (CellName spec)) e"
  have "ruleMap ?e1 = ruleMap e \<and> nextRule ?e1 = nextRule e"
    by (subst (1 2) markRules_closed) simp
  moreover have "ruleMap e' = ruleMap ?e1 \<and> nextRule e' = nextRule ?e1"
    using assms Some registry_checkRules [of host m _ "ruleList ?e1" ?e1 e']
    by (simp add: RunRules_def Let_def)
  ultimately show ?thesis
    by simp
qed

lemma registry_timers:
  "esWbStartTimer args e = (r, e') \<Longrightarrow> ruleMap e' = ruleMap e \<and> nextRule e' = nextRule e"
  "esWbStopTimer args e = Inr (r, e') \<Longrightarrow> ruleMap e' = ruleMap e \<and> nextRule e' = nextRule e"
  "fireTimer host n e = Inr e' \<Longrightarrow> ruleMap e' = ruleMap e \<and> nextRule e' = nextRule e"
  by (auto simp add: esWbStartTimer_def esWbStopTimer_def fireTimer_def removeTimer_def
      removeCallback_def storeCallback_def logError_def Let_def split_beta
      registry_invokeCallback
      split: list.splits if_splits option.splits sum.splits)

lemma allocated_esWbDefineRule:
  assumes step: "esWbDefineRule args e = (r, e')"
    and inv: "\<forall>nm p. ruleMap e nm = Some p \<longrightarrow> p < nextRule e"
  shows "\<forall>nm p. ruleMap e' nm = Some p \<longrightarrow> p < nextRule e'"
proof -
  consider (bad) "e' = logError ''bad rule definition'' e"
    | (run) nv "def" where "args = [nv, def]" "IsString nv" "IsObject def"
    using step by (auto simp add: esWbDefineRule_def split: list.splits if_splits)
  then show ?thesis
  proof cases
    case bad
    then show ?thesis using inv by (simp add: logError_def)
  next
    case run
    obtain res e1 where nr: "newRule (GetString nv) def e = (res, e1)"
      by (cases "newRule (GetString nv) def e")
    have rm: "ruleMap e1 = ruleMap e" and nx: "nextRule e1 = Suc (nextRule e)"
      using newRule_fields [OF nr] by simp_all
    show ?thesis
    proof (cases res)
      case (Inl err)
      with step run nr have "e' = logError ''bad definition of rule %s: %s'' e1"
        by (simp add: esWbDefineRule_def Let_def)
      then show ?thesis
        using inv rm nx by (auto simp add: logError_def less_Suc_eq)
    next
      case (Inr rule)
      have rule: "rule = nextRule e"
        using newRule_Inr [of "GetString nv" "def" e rule e1] nr Inr by simp
      have "ruleMap e' = (ruleMap e)(GetString nv \<mapsto> nextRule e) \<and>
            nextRule e' = Suc (nextRule e)"
        using step run nr Inr rule rm nx
        by (cases "ruleMap e (GetString nv)")
          (auto simp add: esWbDefineRule_def Let_def Destroy_def removeCallback_def setRule_def)
      then show ?thesis
        using inv by (auto simp add: less_Suc_eq)
    qed
  qed
qed

text \<open>
  Every engine reached from a new one maps rule names to allocated rules only, which
  is what the theorem on redefinition asks of the old rule.
\<close>
lemma registry_rules_allocated:
  "engineStep\<^sup>*\<^sup>* NewRuleEngine e \<Longrightarrow> \<forall>nm p. ruleMap e nm = Some p \<longrightarrow> p < nextRule e"
proof (induction rule: rtranclp_induct)
  case base
  show ?case by (simp add: NewRuleEngine_def)
next
  case (step e1 e2)
  from step.hyps(2) step.IH show ?case
  proof (cases rule: engineStep.cases)
    case (stepDefineRule args r)
    then show ?thesis
      using allocated_esWbDefineRule step.IH by blast
  next
    case (stepRunRules host m cs)
    then show ?thesis
      using registry_RunRules [of host m cs e1 e2] step.IH by simp
  next
    case (stepCheck host m c rule)
    then show ?thesis
      using registry_Check [of host m c rule e1 e2] step.IH by simp
  next
    case (stepDestroy rule)
    then show ?thesis
      using step.IH by (simp add: Destroy_def removeCallback_def setRule_def Let_def)
  next
    case (stepStartTimer args r)
    then show ?thesis
      using registry_timers(1) [of args e1 r e2] step.IH by simp
  next
    case (stepStopTimer args r)
    then show ?thesis
      using registry_timers(2) [of args e1 r e2] step.IH by simp
  next
    case (stepFireTimer host n)
    then show ?thesis
      using registry_timers(3) [of host n e1 e2] step.IH by simp
  qed
qed

end
